theory Spec2Isabelle
  imports Main
begin

section \<open>Values and errors\<close>

text \<open>
  The manifest is whatever \<^verbatim>\<open>json.load\<close> returns, and the destination metadata is a
  Python \<^verbatim>\<open>dict[str, Any]\<close>. Both are built from the values below. A dictionary is
  an association list in insertion order; JSON numbers are kept as integers (no
  function of the module inspects a number).
\<close>

datatype pyval =
    PNone
  | PBool bool
  | PInt int
  | PStr string
  | PList "pyval list"
  | PDict "(string \<times> pyval) list"

type_synonym pydict = "(string \<times> pyval) list"

text \<open>
  The exceptions the module raises itself (\<^verbatim>\<open>ValueError\<close>, with the message of the
  source) and those the interpreter raises for it: a missing key, a value of the wrong
  type, a missing attribute, and whatever the loader reports.
\<close>

datatype error =
    KeyError string
  | ValueError string
  | TypeError
  | AttributeError
  | OSError string
  | JSONDecodeError

text \<open>\<^verbatim>\<open>k in d\<close>, \<^verbatim>\<open>d[k]\<close> and \<^verbatim>\<open>d[k] = v\<close> on a dictionary.\<close>

definition has_key :: "string \<Rightarrow> pydict \<Rightarrow> bool" where
  "has_key k d = (map_of d k \<noteq> None)"

definition getitem :: "pydict \<Rightarrow> string \<Rightarrow> error + pyval" where
  "getitem d k = (case map_of d k of None \<Rightarrow> Inl (KeyError k) | Some v \<Rightarrow> Inr v)"

fun setitem :: "string \<Rightarrow> pyval \<Rightarrow> pydict \<Rightarrow> pydict" where
  "setitem k v [] = [(k, v)]"
| "setitem k v ((k', v') # d) =
     (if k' = k then (k, v) # d else (k', v') # setitem k v d)"

section \<open>Regular expressions as the module uses them\<close>

text \<open>
  The two patterns of the module use literals, character classes, the anchors
  \<^verbatim>\<open>^\<close> and \<^verbatim>\<open>$\<close>, capture groups, alternation, the greedy quantifiers
  \<^verbatim>\<open>*\<close> and \<^verbatim>\<open>?\<close> and the lazy quantifiers \<^verbatim>\<open>*?\<close> and \<^verbatim>\<open>+?\<close>; the
  starred and plussed items are single character classes. \<^verbatim>\<open>re.match\<close> is a
  backtracking matcher: \<open>run\<close> lists every way a pattern can match at a position, in
  the order the matcher tries them, and the match \<^verbatim>\<open>re.match\<close> returns is the first.
\<close>

abbreviation nl :: char where "nl \<equiv> CHR 0x0A"
abbreviation tab :: char where "tab \<equiv> CHR 0x09"

datatype cset = Dot | OneOf string | NoneOf string

fun in_cset :: "cset \<Rightarrow> char \<Rightarrow> bool" where
  "in_cset Dot c = (c \<noteq> nl)"
| "in_cset (OneOf cs) c = (c \<in> set cs)"
| "in_cset (NoneOf cs) c = (c \<notin> set cs)"

datatype rx =
    Bol
  | Eol
  | Lit string
  | Star cset
  | StarLazy cset
  | PlusLazy cset
  | Opt rx
  | Grp nat rx
  | Alt rx rx
  | Seq rx rx

record mstate =
  pos :: nat
  rest :: string
  caps :: "nat \<Rightarrow> string option"

definition advance :: "nat \<Rightarrow> mstate \<Rightarrow> mstate" where
  "advance k s = s\<lparr>pos := pos s + k, rest := drop k (rest s)\<rparr>"

definition capture :: "nat \<Rightarrow> mstate \<Rightarrow> mstate \<Rightarrow> mstate" where
  "capture n s s' = s'\<lparr>caps := (caps s')(n := Some (take (pos s' - pos s) (rest s)))\<rparr>"

fun startswith :: "string \<Rightarrow> string \<Rightarrow> bool" where
  "startswith [] s = True"
| "startswith (c # cs) [] = False"
| "startswith (c # cs) (d # ds) = (c = d \<and> startswith cs ds)"

definition span :: "cset \<Rightarrow> mstate \<Rightarrow> nat" where
  "span cs s = length (takeWhile (in_cset cs) (rest s))"

text \<open>
  \<^verbatim>\<open>$\<close> without the MULTILINE flag matches at the end of the string and just before a
  line feed that ends the string; \<^verbatim>\<open>.\<close> without DOTALL is any character but the line
  feed; \<^verbatim>\<open>^\<close> matches at position 0 only.
\<close>

primrec run :: "rx \<Rightarrow> mstate \<Rightarrow> mstate list" where
  "run Bol s = (if pos s = 0 then [s] else [])"
| "run Eol s = (if rest s = [] \<or> rest s = [nl] then [s] else [])"
| "run (Lit l) s = (if startswith l (rest s) then [advance (length l) s] else [])"
| "run (Star cs) s = map (\<lambda>k. advance k s) (rev [0 ..< Suc (span cs s)])"
| "run (StarLazy cs) s = map (\<lambda>k. advance k s) [0 ..< Suc (span cs s)]"
| "run (PlusLazy cs) s = map (\<lambda>k. advance k s) [1 ..< Suc (span cs s)]"
| "run (Opt r) s = run r s @ [s]"
| "run (Grp n r) s = map (capture n s) (run r s)"
| "run (Alt a b) s = run a s @ run b s"
| "run (Seq a b) s = concat (map (run b) (run a s))"

definition re_match :: "rx \<Rightarrow> string \<Rightarrow> (nat \<Rightarrow> string option) option" where
  "re_match p str =
     (case run p \<lparr>pos = 0, rest = str, caps = (\<lambda>_. None)\<rparr> of
        [] \<Rightarrow> None
      | s # _ \<Rightarrow> Some (caps s))"

text \<open>
  \<^verbatim>\<open>AUTHOR_PATTERN = r"^([^<(]+?)?[ \t]*(?:<([^>(]+?)>)?[ \t]*(?:\(([^)]+?)\)|$)"\<close>,
  piece by piece: \<^verbatim>\<open>([^<(]+?)\<close>, \<^verbatim>\<open>[ \t]*\<close>, \<^verbatim>\<open>(?:<([^>(]+?)>)\<close> and
  \<^verbatim>\<open>(?:\(([^)]+?)\)|$)\<close>; \<open>after_name\<close> is all that follows the optional first group.
\<close>

definition name_part :: rx where
  "name_part = Grp 1 (PlusLazy (NoneOf ''<(''))"

definition blanks :: rx where
  "blanks = Star (OneOf [CHR '' '', tab])"

definition email_part :: rx where
  "email_part = Seq (Lit ''<'') (Seq (Grp 2 (PlusLazy (NoneOf ''>(''))) (Lit ''>''))"

definition suffix_part :: rx where
  "suffix_part = Alt (Seq (Lit ''('') (Seq (Grp 3 (PlusLazy (NoneOf '')''))) (Lit '')''))) Eol"

definition after_name :: rx where
  "after_name = Seq blanks (Seq (Opt email_part) (Seq blanks suffix_part))"

definition AUTHOR_PATTERN :: rx where
  "AUTHOR_PATTERN = Seq Bol (Seq (Opt name_part) after_name)"

text \<open>
  \<^verbatim>\<open>REPOSITORY_PATTERN = r"^(?:(gist|bitbucket|gitlab|github):)?(.*?)$"\<close>, piece by
  piece: \<^verbatim>\<open>(?:(gist|bitbucket|gitlab|github):)\<close> and \<^verbatim>\<open>(.*?)$\<close>.
\<close>

definition provider_part :: rx where
  "provider_part =
     Seq (Grp 1 (Alt (Lit ''gist'') (Alt (Lit ''bitbucket'') (Alt (Lit ''gitlab'') (Lit ''github'')))))
         (Lit '':'')"

definition identifier_part :: rx where
  "identifier_part = Seq (Grp 2 (StarLazy Dot)) Eol"

definition REPOSITORY_PATTERN :: rx where
  "REPOSITORY_PATTERN = Seq Bol (Seq (Opt provider_part) identifier_part)"

definition REPOSITORY_TABLE :: "string \<Rightarrow> string option" where
  "REPOSITORY_TABLE =
     map_of [(''gitlab'', ''https://gitlab.com''),
             (''github'', ''https://github.com''),
             (''gist'', ''https://gist.github.com''),
             (''bitbucket'', ''https://bitbucket.org'')]"

section \<open>The field parsers\<close>

text \<open>
  \<^verbatim>\<open>_parse_bugs\<close>: a string is returned as it is. Otherwise \<^verbatim>\<open>"url" not in bugs\<close>
  is a key test on a dictionary and an element test on a list (whose subscript by a
  string then raises), and raises on a value that is not a container.
\<close>

fun parse_bugs :: "pyval \<Rightarrow> error + pyval" where
  "parse_bugs (PStr s) = Inr (PStr s)"
| "parse_bugs (PDict d) = (if \<not> has_key ''url'' d then Inr PNone else getitem d ''url'')"
| "parse_bugs (PList xs) = (if PStr ''url'' \<notin> set xs then Inr PNone else Inl TypeError)"
| "parse_bugs _ = Inl TypeError"

text \<open>
  \<^verbatim>\<open>_parse_person\<close>: \<^verbatim>\<open>person.keys()\<close> exists on a dictionary only. A group that
  took no part in the match is \<^verbatim>\<open>None\<close> in \<^verbatim>\<open>match.groups()\<close>.
\<close>

definition opt_str :: "string option \<Rightarrow> pyval" where
  "opt_str g = (case g of None \<Rightarrow> PNone | Some t \<Rightarrow> PStr t)"

fun parse_person :: "pyval \<Rightarrow> error + pyval" where
  "parse_person (PDict person) =
     (if has_key ''url'' person \<or> has_key ''email'' person then
        (case getitem person ''name'' of
           Inl e \<Rightarrow> Inl e
         | Inr name \<Rightarrow>
             (case map_of person ''email'' of
                Some email \<Rightarrow> Inr (PDict [(''name'', name), (''email'', email)])
              | None \<Rightarrow> Inr (PDict [(''name'', name)])))
      else
        (case getitem person ''name'' of
           Inl e \<Rightarrow> Inl e
         | Inr (PStr name) \<Rightarrow>
             (case re_match AUTHOR_PATTERN name of
                None \<Rightarrow> Inl (ValueError (''Invalid author name: '' @ name))
              | Some groups \<Rightarrow>
                  (case groups 2 of
                     Some email \<Rightarrow>
                       Inr (PDict [(''name'', opt_str (groups 1)), (''email'', PStr email)])
                   | None \<Rightarrow> Inr (PDict [(''name'', opt_str (groups 1))])))
         | Inr _ \<Rightarrow> Inl TypeError))"
| "parse_person _ = Inl AttributeError"

section \<open>Joining a base URL and a reference\<close>

text \<open>
  \<^verbatim>\<open>_parse_repository\<close> calls \<^verbatim>\<open>urllib.parse.urljoin\<close> of the standard library.
  The definitions below follow CPython 3.11's \<^verbatim>\<open>urllib/parse.py\<close> function by
  function, on text arguments with \<^verbatim>\<open>allow_fragments\<close> left at its default. Two things
  are outside: \<^verbatim>\<open>ipaddress.ip_address\<close>, which decides whether a bracketed host is an
  address and is passed in as \<open>ip\<close> (\<open>None\<close> where it raises), and the NFKC check of
  \<^verbatim>\<open>_checknetloc\<close>, which rejects only code points that the 8-bit characters of this
  model do not have.
\<close>

datatype ip_version = IPv4 | IPv6

definition uses_relative :: "string list" where
  "uses_relative = ['''', ''ftp'', ''http'', ''gopher'', ''nntp'', ''imap'',
     ''wais'', ''file'', ''https'', ''shttp'', ''mms'', ''prospero'', ''rtsp'', ''rtsps'',
     ''rtspu'', ''sftp'', ''svn'', ''svn+ssh'', ''ws'', ''wss'']"

definition uses_netloc :: "string list" where
  "uses_netloc = ['''', ''ftp'', ''http'', ''gopher'', ''nntp'', ''telnet'',
     ''imap'', ''wais'', ''file'', ''mms'', ''https'', ''shttp'', ''snews'', ''prospero'',
     ''rtsp'', ''rtsps'', ''rtspu'', ''rsync'', ''svn'', ''svn+ssh'', ''sftp'', ''nfs'',
     ''git'', ''git+ssh'', ''ws'', ''wss'']"

definition uses_params :: "string list" where
  "uses_params = ['''', ''ftp'', ''hdl'', ''prospero'', ''http'', ''imap'',
     ''https'', ''shttp'', ''rtsp'', ''rtsps'', ''rtspu'', ''sip'', ''sips'', ''mms'',
     ''sftp'', ''tel'']"

definition ascii_lower :: string where
  "ascii_lower = ''abcdefghijklmnopqrstuvwxyz''"

definition ascii_upper :: string where
  "ascii_upper = ''ABCDEFGHIJKLMNOPQRSTUVWXYZ''"

definition scheme_chars :: string where
  "scheme_chars = ascii_lower @ ascii_upper @ ''0123456789+-.''"

definition lower :: "string \<Rightarrow> string" where
  "lower s = map (\<lambda>c. case map_of (zip ascii_upper ascii_lower) c of
                          Some l \<Rightarrow> l | None \<Rightarrow> c) s"

text \<open>The characters of \<^verbatim>\<open>_WHATWG_C0_CONTROL_OR_SPACE\<close> are the codes 0 to 32.\<close>

definition c0_or_space :: "char \<Rightarrow> bool" where
  "c0_or_space c = ((of_char c :: nat) \<le> 32)"

definition lstrip :: "string \<Rightarrow> string" where
  "lstrip s = dropWhile c0_or_space s"

definition strip :: "string \<Rightarrow> string" where
  "strip s = rev (dropWhile c0_or_space (rev (dropWhile c0_or_space s)))"

definition remove_unsafe :: "string \<Rightarrow> string" where
  "remove_unsafe s = filter (\<lambda>c. c \<notin> set [tab, CHR 0x0D, nl]) s"

text \<open>\<^verbatim>\<open>s.split(c)\<close>, \<^verbatim>\<open>c.join(xs)\<close>, and \<^verbatim>\<open>s.split(c, 1)\<close> where \<^verbatim>\<open>c in s\<close>.\<close>

fun split_sep :: "char \<Rightarrow> string \<Rightarrow> string list" where
  "split_sep c [] = [[]]"
| "split_sep c (x # xs) =
     (if x = c then [] # split_sep c xs
      else (case split_sep c xs of [] \<Rightarrow> [[x]] | y # ys \<Rightarrow> (x # y) # ys))"

fun join_sep :: "char \<Rightarrow> string list \<Rightarrow> string" where
  "join_sep c [] = []"
| "join_sep c [x] = x"
| "join_sep c (x # y # ys) = x @ c # join_sep c (y # ys)"

definition split_first :: "char \<Rightarrow> string \<Rightarrow> string \<times> string" where
  "split_first c s = (takeWhile (\<lambda>x. x \<noteq> c) s, tl (dropWhile (\<lambda>x. x \<noteq> c) s))"

text \<open>\<^verbatim>\<open>_splitnetloc(url, 2)\<close>: the authority ends at the first of \<^verbatim>\<open>/ ? #\<close>.\<close>

definition splitnetloc :: "string \<Rightarrow> string \<times> string" where
  "splitnetloc url =
     (let r = drop 2 url; delim = (\<lambda>x. x \<notin> set ''/?#'')
      in (takeWhile delim r, dropWhile delim r))"

text \<open>
  \<^verbatim>\<open>_check_bracketed_host\<close>: a host that starts with \<^verbatim>\<open>v\<close> must match
  \<^verbatim>\<open>\Av[a-fA-F0-9]+\..+\Z\<close>; any other must be an IPv6 address.
\<close>

definition check_bracketed_host :: "(string \<Rightarrow> ip_version option) \<Rightarrow> string \<Rightarrow> error + unit" where
  "check_bracketed_host ip hostname =
     (if startswith ''v'' hostname then
        (let hex = (\<lambda>x. x \<in> set ''abcdefABCDEF0123456789'');
             r = dropWhile hex (tl hostname)
         in if takeWhile hex (tl hostname) \<noteq> [] \<and> startswith ''.'' r \<and> tl r \<noteq> []
               \<and> nl \<notin> set (tl r)
            then Inr ()
            else Inl (ValueError ''IPvFuture address is invalid''))
      else
        (case ip hostname of
           None \<Rightarrow>
             Inl (ValueError ([CHR 0x27] @ hostname @ [CHR 0x27]
                    @ '' does not appear to be an IPv4 or IPv6 address''))
         | Some IPv4 \<Rightarrow> Inl (ValueError ''An IPv4 address cannot be in brackets'')
         | Some IPv6 \<Rightarrow> Inr ()))"

definition check_brackets :: "(string \<Rightarrow> ip_version option) \<Rightarrow> string \<Rightarrow> error + unit" where
  "check_brackets ip netloc =
     (let lb = (CHR ''['' \<in> set netloc); rb = (CHR '']'' \<in> set netloc)
      in if (lb \<and> \<not> rb) \<or> (rb \<and> \<not> lb) then Inl (ValueError ''Invalid IPv6 URL'')
         else if lb \<and> rb then
           check_bracketed_host ip
             (takeWhile (\<lambda>x. x \<noteq> CHR '']'') (tl (dropWhile (\<lambda>x. x \<noteq> CHR ''['') netloc)))
         else Inr ())"

text \<open>\<^verbatim>\<open>urlsplit(url, scheme)\<close> gives scheme, netloc, path, query and fragment.\<close>

definition urlsplit ::
  "(string \<Rightarrow> ip_version option) \<Rightarrow> string \<Rightarrow> string
     \<Rightarrow> error + (string \<times> string \<times> string \<times> string \<times> string)" where
  "urlsplit ip url0 scheme0 =
     (let url1 = remove_unsafe (lstrip url0);
          scheme1 = remove_unsafe (strip scheme0);
          pre = takeWhile (\<lambda>x. x \<noteq> CHR '':'') url1;
          (scheme, url2) =
            (if CHR '':'' \<in> set url1 \<and> pre \<noteq> [] \<and> hd url1 \<in> set (ascii_lower @ ascii_upper)
                \<and> list_all (\<lambda>c. c \<in> set scheme_chars) pre
             then (lower pre, drop (Suc (length pre)) url1)
             else (scheme1, url1));
          (netloc, url3) =
            (if take 2 url2 = ''//'' then splitnetloc url2 else ([], url2))
      in case (if take 2 url2 = ''//'' then check_brackets ip netloc else Inr ()) of
           Inl e \<Rightarrow> Inl e
         | Inr _ \<Rightarrow>
             (let (url4, fragment) =
                    (if CHR ''#'' \<in> set url3 then split_first (CHR ''#'') url3 else (url3, []));
                  (url5, query) =
                    (if CHR ''?'' \<in> set url4 then split_first (CHR ''?'') url4 else (url4, []))
              in Inr (scheme, netloc, url5, query, fragment)))"

text \<open>
  \<^verbatim>\<open>_splitparams\<close>: the parameters start at the first \<^verbatim>\<open>;\<close> of the last path
  segment.
\<close>

definition splitparams :: "string \<Rightarrow> string \<times> string" where
  "splitparams url =
     (if CHR ''/'' \<in> set url then
        (let seg = rev (takeWhile (\<lambda>x. x \<noteq> CHR ''/'') (rev url));
             dir = take (length url - length seg) url
         in if CHR '';'' \<notin> set seg then (url, [])
            else (dir @ fst (split_first (CHR '';'') seg), snd (split_first (CHR '';'') seg)))
      else split_first (CHR '';'') url)"

definition urlparse ::
  "(string \<Rightarrow> ip_version option) \<Rightarrow> string \<Rightarrow> string
     \<Rightarrow> error + (string \<times> string \<times> string \<times> string \<times> string \<times> string)" where
  "urlparse ip url scheme0 =
     (case urlsplit ip url scheme0 of
        Inl e \<Rightarrow> Inl e
      | Inr (scheme, netloc, path, query, fragment) \<Rightarrow>
          (if scheme \<in> set uses_params \<and> CHR '';'' \<in> set path
           then (let (path', params) = splitparams path
                 in Inr (scheme, netloc, path', params, query, fragment))
           else Inr (scheme, netloc, path, [], query, fragment)))"

definition urlunsplit :: "string \<Rightarrow> string \<Rightarrow> string \<Rightarrow> string \<Rightarrow> string \<Rightarrow> string" where
  "urlunsplit scheme netloc url0 query fragment =
     (let url1 =
            (if netloc \<noteq> [] \<or> (scheme \<noteq> [] \<and> scheme \<in> set uses_netloc) \<or> take 2 url0 = ''//''
             then ''//'' @ netloc @ (if url0 \<noteq> [] \<and> take 1 url0 \<noteq> ''/'' then ''/'' @ url0 else url0)
             else url0);
          url2 = (if scheme \<noteq> [] then scheme @ '':'' @ url1 else url1);
          url3 = (if query \<noteq> [] then url2 @ ''?'' @ query else url2)
      in if fragment \<noteq> [] then url3 @ ''#'' @ fragment else url3)"

definition urlunparse ::
  "string \<Rightarrow> string \<Rightarrow> string \<Rightarrow> string \<Rightarrow> string \<Rightarrow> string \<Rightarrow> string" where
  "urlunparse scheme netloc url params query fragment =
     urlunsplit scheme netloc (if params \<noteq> [] then url @ '';'' @ params else url)
       query fragment"

text \<open>The loop of \<^verbatim>\<open>urljoin\<close> over the segments; \<open>acc\<close> is \<^verbatim>\<open>resolved_path\<close>.\<close>

fun resolve :: "string list \<Rightarrow> string list \<Rightarrow> string list" where
  "resolve acc [] = acc"
| "resolve acc (seg # segs) =
     (if seg = ''..'' then resolve (butlast acc) segs
      else if seg = ''.'' then resolve acc segs
      else resolve (acc @ [seg]) segs)"

text \<open>\<^verbatim>\<open>segments[1:-1] = filter(None, segments[1:-1])\<close>\<close>

fun drop_empty_inner :: "string list \<Rightarrow> string list" where
  "drop_empty_inner [] = []"
| "drop_empty_inner [x] = [x]"
| "drop_empty_inner (x # y # ys) =
     x # filter (\<lambda>s. s \<noteq> []) (butlast (y # ys)) @ [last (y # ys)]"

definition urljoin :: "(string \<Rightarrow> ip_version option) \<Rightarrow> string \<Rightarrow> string \<Rightarrow> error + string" where
  "urljoin ip base url =
     (if base = [] then Inr url
      else if url = [] then Inr base
      else
        (case urlparse ip base [] of
           Inl e \<Rightarrow> Inl e
         | Inr (bscheme, bnetloc, bpath, bparams, bquery, bfragment) \<Rightarrow>
        (case urlparse ip url bscheme of
           Inl e \<Rightarrow> Inl e
         | Inr (scheme, netloc, path, params, query, fragment) \<Rightarrow>
             (if scheme \<noteq> bscheme \<or> scheme \<notin> set uses_relative then Inr url
              else if scheme \<in> set uses_netloc \<and> netloc \<noteq> [] then
                Inr (urlunparse scheme netloc path params query fragment)
              else
                (let netloc' = (if scheme \<in> set uses_netloc then bnetloc else netloc)
                 in if path = [] \<and> params = [] then
                      Inr (urlunparse scheme netloc' bpath bparams
                             (if query = [] then bquery else query) fragment)
                    else
                      (let base_parts0 = split_sep (CHR ''/'') bpath;
                           base_parts = (if last base_parts0 \<noteq> [] then butlast base_parts0
                                         else base_parts0);
                           segments =
                             (if take 1 path = ''/'' then split_sep (CHR ''/'') path
                              else drop_empty_inner (base_parts @ split_sep (CHR ''/'') path));
                           resolved0 = resolve [] segments;
                           resolved = (if last segments \<in> set [''.'', ''..'']
                                       then resolved0 @ [[]] else resolved0);
                           joined = join_sep (CHR ''/'') resolved
                       in Inr (urlunparse scheme netloc'
                                 (if joined = [] then ''/'' else joined)
                                 params query fragment)))))))"

text \<open>
  \<^verbatim>\<open>_parse_repository\<close>: the table lookup \<^verbatim>\<open>REPOSITORY_TABLE[kind]\<close> raises on a
  missing key; a value that is neither a string nor a dictionary cannot be subscripted
  by \<^verbatim>\<open>"url"\<close>.
\<close>

fun parse_repository :: "(string \<Rightarrow> ip_version option) \<Rightarrow> pyval \<Rightarrow> error + pyval" where
  "parse_repository ip (PStr repository) =
     (case re_match REPOSITORY_PATTERN repository of
        None \<Rightarrow> Inl (ValueError (''Invalid repository string: '' @ repository))
      | Some groups \<Rightarrow>
          (let kind = (case groups 1 of None \<Rightarrow> ''github'' | Some k \<Rightarrow> k)
           in case REPOSITORY_TABLE kind of
                None \<Rightarrow> Inl (KeyError kind)
              | Some base \<Rightarrow>
                  (case urljoin ip base (case groups 2 of None \<Rightarrow> [] | Some i \<Rightarrow> i) of
                     Inl e \<Rightarrow> Inl e
                   | Inr u \<Rightarrow> Inr (PStr u))))"
| "parse_repository ip (PDict d) = getitem d ''url''"
| "parse_repository ip _ = Inl TypeError"

section \<open>The metadata assembler\<close>

text \<open>
  \<^verbatim>\<open>"key" in package\<close>, \<^verbatim>\<open>package["key"]\<close> and iteration, on any value the loader
  may return: a key test on a dictionary, an element test on a list, a substring test on
  a string; only a dictionary can be subscripted by a string.
\<close>

fun contains :: "string \<Rightarrow> string \<Rightarrow> bool" where
  "contains sub [] = (sub = [])"
| "contains sub (c # cs) = (startswith sub (c # cs) \<or> contains sub cs)"

fun py_in :: "string \<Rightarrow> pyval \<Rightarrow> error + bool" where
  "py_in k (PDict d) = Inr (has_key k d)"
| "py_in k (PList xs) = Inr (PStr k \<in> set xs)"
| "py_in k (PStr s) = Inr (contains k s)"
| "py_in k _ = Inl TypeError"

fun py_getitem :: "pyval \<Rightarrow> string \<Rightarrow> error + pyval" where
  "py_getitem (PDict d) k = getitem d k"
| "py_getitem _ k = Inl TypeError"

fun py_iter :: "pyval \<Rightarrow> error + pyval list" where
  "py_iter (PList xs) = Inr xs"
| "py_iter (PDict d) = Inr (map (\<lambda>kv. PStr (fst kv)) d)"
| "py_iter (PStr s) = Inr (map (\<lambda>c. PStr [c]) s)"
| "py_iter _ = Inl TypeError"

text \<open>The list comprehension over the contributors stops at the first exception.\<close>

fun parse_people :: "pyval list \<Rightarrow> error + pyval list" where
  "parse_people [] = Inr []"
| "parse_people (p # ps) =
     (case parse_person p of
        Inl e \<Rightarrow> Inl e
      | Inr r \<Rightarrow> (case parse_people ps of Inl e \<Rightarrow> Inl e | Inr rs \<Rightarrow> Inr (r # rs)))"

definition parse_contributors :: "pyval \<Rightarrow> error + pyval" where
  "parse_contributors v =
     (case py_iter v of
        Inl e \<Rightarrow> Inl e
      | Inr ps \<Rightarrow> (case parse_people ps of Inl e \<Rightarrow> Inl e | Inr rs \<Rightarrow> Inr (PList rs)))"

text \<open>
  One block \<^verbatim>\<open>if src in package: target[dst] = f(package[src])\<close> of \<^verbatim>\<open>update\<close>. The
  right-hand side is evaluated before the assignment, so an exception leaves the target
  as it was.
\<close>

definition set_field ::
  "string \<Rightarrow> string \<Rightarrow> (pyval \<Rightarrow> error + pyval) \<Rightarrow> pyval \<Rightarrow> pydict \<Rightarrow> error + pydict" where
  "set_field src dst f package target =
     (case py_in src package of
        Inl e \<Rightarrow> Inl e
      | Inr False \<Rightarrow> Inr target
      | Inr True \<Rightarrow>
          (case py_getitem package src of
             Inl e \<Rightarrow> Inl e
           | Inr v \<Rightarrow> (case f v of Inl e \<Rightarrow> Inl e | Inr w \<Rightarrow> Inr (setitem dst w target))))"

text \<open>The block for \<^verbatim>\<open>bugs\<close> stores the result only when it is not \<^verbatim>\<open>None\<close>.\<close>

definition set_bugs :: "pyval \<Rightarrow> pydict \<Rightarrow> error + pydict" where
  "set_bugs package urls =
     (case py_in ''bugs'' package of
        Inl e \<Rightarrow> Inl e
      | Inr False \<Rightarrow> Inr urls
      | Inr True \<Rightarrow>
          (case py_getitem package ''bugs'' of
             Inl e \<Rightarrow> Inl e
           | Inr v \<Rightarrow>
               (case parse_bugs v of
                  Inl e \<Rightarrow> Inl e
                | Inr bugs_url \<Rightarrow>
                    Inr (if bugs_url \<noteq> PNone then setitem ''bug tracker'' bugs_url urls
                         else urls))))"

text \<open>The part of \<^verbatim>\<open>update\<close> under \<^verbatim>\<open># Construct URLs\<close>: the local \<^verbatim>\<open>urls\<close>.\<close>

definition construct_urls :: "(string \<Rightarrow> ip_version option) \<Rightarrow> pyval \<Rightarrow> error + pydict" where
  "construct_urls ip package =
     (case set_field ''homepage'' ''homepage'' Inr package [] of
        Inl e \<Rightarrow> Inl e
      | Inr urls1 \<Rightarrow>
          (case set_bugs package urls1 of
             Inl e \<Rightarrow> Inl e
           | Inr urls2 \<Rightarrow>
               set_field ''repository'' ''repository'' (parse_repository ip) package urls2))"

text \<open>The part under \<^verbatim>\<open># Write URLs\<close>.\<close>

definition write_urls ::
  "(string \<Rightarrow> ip_version option) \<Rightarrow> pyval \<Rightarrow> pydict \<Rightarrow> error + pydict" where
  "write_urls ip package metadata =
     (case construct_urls ip package of
        Inl e \<Rightarrow> Inl e
      | Inr urls \<Rightarrow> Inr (if urls \<noteq> [] then setitem ''urls'' (PDict urls) metadata else metadata))"

text \<open>
  The blocks run in order on the caller's dictionary, which is mutated in place: when a
  block raises, the caller keeps what the earlier blocks wrote.
\<close>

fun run_steps :: "(pydict \<Rightarrow> error + pydict) list \<Rightarrow> pydict \<Rightarrow> pydict \<times> error option" where
  "run_steps [] metadata = (metadata, None)"
| "run_steps (f # fs) metadata =
     (case f metadata of
        Inl e \<Rightarrow> (metadata, Some e)
      | Inr metadata' \<Rightarrow> run_steps fs metadata')"

text \<open>
  \<^verbatim>\<open>update\<close>. Reading and decoding the manifest file is the host's file system and
  the JSON decoder: \<open>loaded\<close> is what \<^verbatim>\<open>load_package_data\<close> returned or raised. The result
  is the metadata after the call and the exception that ended it, if any.
\<close>

definition field_steps :: "pyval \<Rightarrow> (pydict \<Rightarrow> error + pydict) list" where
  "field_steps package =
     [set_field ''author'' ''author'' parse_person package,
      set_field ''contributors'' ''maintainers'' parse_contributors package,
      set_field ''keywords'' ''keywords'' Inr package,
      set_field ''description'' ''description'' Inr package,
      set_field ''license'' ''license'' Inr package]"

definition update ::
  "(string \<Rightarrow> ip_version option) \<Rightarrow> error + pyval \<Rightarrow> pydict \<Rightarrow> pydict \<times> error option" where
  "update ip loaded metadata =
     (case loaded of
        Inl e \<Rightarrow> (metadata, Some e)
      | Inr package \<Rightarrow>
          run_steps (field_steps package @ [write_urls ip package]) metadata)"

section \<open>Dictionaries and the assembler's blocks\<close>

lemma map_of_setitem: "map_of (setitem k v d) k' = (if k' = k then Some v else map_of d k')"
  by (induction d) auto

lemma setitem_not_Nil: "setitem k v d \<noteq> []"
  by (cases d) (auto split: if_splits)

lemma set_field_frame:
  assumes "set_field src dst f (PDict package) target = Inr t'"
  shows "map_of t' k = map_of target k \<or> (k = dst \<and> has_key src package)"
  using assms
  by (auto simp: set_field_def map_of_setitem split: sum.splits bool.splits if_splits)

lemma set_field_absent:
  "\<not> has_key src package \<Longrightarrow> set_field src dst f (PDict package) target = Inr target"
  by (simp add: set_field_def)

lemma set_field_present:
  "map_of package src = Some v \<Longrightarrow>
   set_field src dst f (PDict package) target =
     (case f v of Inl e \<Rightarrow> Inl e | Inr w \<Rightarrow> Inr (setitem dst w target))"
  by (simp add: set_field_def has_key_def getitem_def)

lemma set_bugs_absent:
  "\<not> has_key ''bugs'' package \<Longrightarrow> set_bugs (PDict package) urls = Inr urls"
  by (simp add: set_bugs_def)

lemma set_bugs_present:
  "map_of package ''bugs'' = Some v \<Longrightarrow>
   set_bugs (PDict package) urls =
     (case parse_bugs v of
        Inl e \<Rightarrow> Inl e
      | Inr b \<Rightarrow> Inr (if b \<noteq> PNone then setitem ''bug tracker'' b urls else urls))"
  by (simp add: set_bugs_def has_key_def getitem_def)

lemma run_steps_frame:
  assumes "\<And>f m m'. f \<in> set fs \<Longrightarrow> f m = Inr m' \<Longrightarrow> map_of m' k = map_of m k"
  shows "map_of (fst (run_steps fs md)) k = map_of md k"
  using assms
proof (induction fs arbitrary: md)
  case Nil
  then show ?case by simp
next
  case (Cons f fs)
  show ?case
  proof (cases "f md")
    case (Inl e)
    then show ?thesis by simp
  next
    case (Inr m')
    have "map_of (fst (run_steps fs m')) k = map_of m' k"
      by (rule Cons.IH) (use Cons.prems in auto)
    moreover have "map_of m' k = map_of md k"
      using Cons.prems [of f md m'] Inr by simp
    ultimately show ?thesis using Inr by simp
  qed
qed

lemma run_steps_last_fails:
  assumes "\<And>m. \<exists>e. f m = Inl e"
  shows "\<exists>e. snd (run_steps (fs @ [f]) md) = Some e"
proof (induction fs arbitrary: md)
  case Nil
  obtain e where "f md = Inl e" using assms by blast
  then show ?case by simp
next
  case (Cons g fs)
  then show ?case by (cases "g md") auto
qed


lemma run_steps_snoc_ok:
  "run_steps (fs @ [g]) md = (md', None) \<Longrightarrow> \<exists>m. run_steps fs md = (m, None) \<and> g m = Inr md'"
proof (induction fs arbitrary: md)
  case Nil
  then show ?case by (cases "g md") auto
next
  case (Cons f fs)
  then show ?case by (cases "f md") auto
qed

lemma construct_urls_parts:
  assumes "construct_urls ip package = Inr urls"
  shows "\<exists>u1 u2. set_field ''homepage'' ''homepage'' Inr package [] = Inr u1 \<and>
           set_bugs package u1 = Inr u2 \<and>
           set_field ''repository'' ''repository'' (parse_repository ip) package u2 = Inr urls"
  using assms unfolding construct_urls_def by (simp split: sum.splits)

lemma construct_urls_bug_tracker:
  assumes "map_of package ''bugs'' = Some b" and "parse_bugs b = Inr v"
    and "construct_urls ip (PDict package) = Inr urls"
  shows "map_of urls ''bug tracker'' = (if v = PNone then None else Some v)"
proof -
  obtain u1 u2 where u1: "set_field ''homepage'' ''homepage'' Inr (PDict package) [] = Inr u1"
    and u2: "set_bugs (PDict package) u1 = Inr u2"
    and u3: "set_field ''repository'' ''repository'' (parse_repository ip) (PDict package) u2
               = Inr urls"
    using construct_urls_parts [OF assms(3)] by blast
  have "map_of u1 ''bug tracker'' = None"
    using set_field_frame [OF u1, of "''bug tracker''"] by simp
  moreover have "u2 = (if v \<noteq> PNone then setitem ''bug tracker'' v u1 else u1)"
    using u2 assms(1,2) by (simp add: set_bugs_present)
  moreover have "map_of urls ''bug tracker'' = map_of u2 ''bug tracker''"
    using set_field_frame [OF u3, of "''bug tracker''"] by simp
  ultimately show ?thesis by (simp add: map_of_setitem)
qed

lemma construct_urls_empty:
  assumes "\<not> has_key ''homepage'' package" "\<not> has_key ''bugs'' package"
    "\<not> has_key ''repository'' package"
  shows "construct_urls ip (PDict package) = Inr []"
  using assms by (simp add: construct_urls_def set_field_absent set_bugs_absent)

lemma write_urls_frame:
  assumes "write_urls ip (PDict package) md = Inr md'"
  shows "map_of md' k = map_of md k \<or>
         (k = ''urls'' \<and> (has_key ''homepage'' package \<or> has_key ''bugs'' package
            \<or> has_key ''repository'' package))"
proof (cases "has_key ''homepage'' package \<or> has_key ''bugs'' package
            \<or> has_key ''repository'' package")
  case True
  obtain urls where "construct_urls ip (PDict package) = Inr urls"
    and "md' = (if urls \<noteq> [] then setitem ''urls'' (PDict urls) md else md)"
    using assms unfolding write_urls_def by (auto split: sum.splits)
  then show ?thesis using True by (simp add: map_of_setitem)
next
  case False
  then have "construct_urls ip (PDict package) = Inr []"
    by (simp add: construct_urls_empty)
  then show ?thesis using assms by (simp add: write_urls_def)
qed

lemma update_steps:
  "update ip (Inr package) md = run_steps (field_steps package @ [write_urls ip package]) md"
  by (simp add: update_def)

lemma field_steps_urls:
  assumes "f \<in> set (field_steps (PDict package))" and "f m = Inr m'"
  shows "map_of m' ''urls'' = map_of m ''urls''"
proof -
  obtain src dst g where f: "f = set_field src dst g (PDict package)" and "dst \<noteq> ''urls''"
    using assms(1) unfolding field_steps_def by auto
  then show ?thesis using set_field_frame [of src dst g package m m' "''urls''"] assms(2)
    by simp
qed

lemma update_ok_urls:
  assumes "update ip (Inr (PDict package)) md = (md', None)"
  shows "\<exists>urls. construct_urls ip (PDict package) = Inr urls \<and>
           map_of md' ''urls'' = (if urls = [] then map_of md ''urls'' else Some (PDict urls))"
proof -
  obtain m where m: "run_steps (field_steps (PDict package)) md = (m, None)"
    and w: "write_urls ip (PDict package) m = Inr md'"
    using run_steps_snoc_ok assms unfolding update_steps by blast
  have "map_of (fst (run_steps (field_steps (PDict package)) md)) ''urls'' = map_of md ''urls''"
    by (rule run_steps_frame) (rule field_steps_urls)
  then have mu: "map_of m ''urls'' = map_of md ''urls''" using m by simp
  obtain urls where c: "construct_urls ip (PDict package) = Inr urls"
    and "md' = (if urls \<noteq> [] then setitem ''urls'' (PDict urls) m else m)"
    using w unfolding write_urls_def by (auto split: sum.splits)
  then show ?thesis using mu by (auto simp: map_of_setitem)
qed

section \<open>Running the assembler\<close>

lemma run_steps_append:
  "run_steps (fs @ gs) md =
     (case run_steps fs md of (m, None) \<Rightarrow> run_steps gs m | (m, Some e) \<Rightarrow> (m, Some e))"
proof (induction fs arbitrary: md)
  case Nil
  then show ?case by simp
next
  case (Cons f fs)
  then show ?case by (cases "f md") auto
qed

lemma set_field_copy_ok: "\<exists>t'. set_field src dst Inr (PDict package) target = Inr t'"
proof (cases "map_of package src")
  case None
  then show ?thesis by (simp add: set_field_def has_key_def)
next
  case (Some v)
  then show ?thesis by (simp add: set_field_present)
qed

lemma field_steps_ok:
  assumes "\<not> has_key ''author'' package" and "\<not> has_key ''contributors'' package"
  shows "\<exists>m. run_steps (field_steps (PDict package)) md = (m, None)"
proof -
  obtain m1 where m1: "set_field ''keywords'' ''keywords'' Inr (PDict package) md = Inr m1"
    using set_field_copy_ok by blast
  obtain m2 where m2: "set_field ''description'' ''description'' Inr (PDict package) m1 = Inr m2"
    using set_field_copy_ok by blast
  obtain m3 where m3: "set_field ''license'' ''license'' Inr (PDict package) m2 = Inr m3"
    using set_field_copy_ok by blast
  show ?thesis
    using assms m1 m2 m3 by (simp add: field_steps_def set_field_absent)
qed

lemma construct_urls_repository_fails:
  assumes "map_of package ''repository'' = Some r" and "parse_repository ip r = Inl e"
  shows "\<exists>e'. construct_urls ip (PDict package) = Inl e'"
  using assms
  by (simp add: construct_urls_def set_field_present split: sum.splits)

lemma construct_urls_repository_error:
  assumes "map_of package ''repository'' = Some r" and "parse_repository ip r = Inl e"
    and "\<not> has_key ''bugs'' package"
  shows "construct_urls ip (PDict package) = Inl e"
proof -
  obtain u1 where "set_field ''homepage'' ''homepage'' Inr (PDict package) [] = Inr u1"
    using set_field_copy_ok by blast
  then show ?thesis using assms
    by (simp add: construct_urls_def set_field_present set_bugs_absent)
qed

lemma description_only_keys:
  "\<not> has_key ''author'' [(''description'', x)]"
  "\<not> has_key ''contributors'' [(''description'', x)]"
  "\<not> has_key ''keywords'' [(''description'', x)]"
  "\<not> has_key ''license'' [(''description'', x)]"
  "\<not> has_key ''homepage'' [(''description'', x)]"
  "\<not> has_key ''bugs'' [(''description'', x)]"
  "\<not> has_key ''repository'' [(''description'', x)]"
  by (simp_all add: has_key_def)

lemma description_only_fields:
  "run_steps (field_steps (PDict [(''description'', x)])) metadata
     = (setitem ''description'' x metadata, None)"
proof -
  have d: "set_field ''description'' ''description'' Inr (PDict [(''description'', x)]) metadata
             = Inr (setitem ''description'' x metadata)"
    by (simp add: set_field_present)
  show ?thesis
    unfolding field_steps_def run_steps.simps
      set_field_absent [OF description_only_keys(1)]
      set_field_absent [OF description_only_keys(2)]
      set_field_absent [OF description_only_keys(3)]
      set_field_absent [OF description_only_keys(4)]
    by (simp add: d)
qed

lemma update_description_only:
  "update ip (Inr (PDict [(''description'', x)])) metadata
     = (setitem ''description'' x metadata, None)"
proof -
  have w: "write_urls ip (PDict [(''description'', x)]) m = Inr m" for m
    unfolding write_urls_def
      construct_urls_empty [OF description_only_keys(5) description_only_keys(6)
        description_only_keys(7)]
    by simp
  show ?thesis
    unfolding update_steps run_steps_append description_only_fields by (simp add: w)
qed

lemma run_steps_frame6:
  assumes "\<And>m m'. f1 m = Inr m' \<Longrightarrow> map_of m' k = map_of m k"
    and "\<And>m m'. f2 m = Inr m' \<Longrightarrow> map_of m' k = map_of m k"
    and "\<And>m m'. f3 m = Inr m' \<Longrightarrow> map_of m' k = map_of m k"
    and "\<And>m m'. f4 m = Inr m' \<Longrightarrow> map_of m' k = map_of m k"
    and "\<And>m m'. f5 m = Inr m' \<Longrightarrow> map_of m' k = map_of m k"
    and "\<And>m m'. f6 m = Inr m' \<Longrightarrow> map_of m' k = map_of m k"
  shows "map_of (fst (run_steps ([f1, f2, f3, f4, f5] @ [f6]) md)) k = map_of md k"
proof (rule run_steps_frame)
  fix f m m'
  assume "f \<in> set ([f1, f2, f3, f4, f5] @ [f6])" and r: "f m = Inr m'"
  then have "f = f1 \<or> f = f2 \<or> f = f3 \<or> f = f4 \<or> f = f5 \<or> f = f6" by simp
  then show "map_of m' k = map_of m k"
    using assms r by blast
qed

lemma set_field_keeps:
  assumes "set_field src dst g (PDict package) m = Inr m'"
    and "k \<noteq> dst \<or> \<not> has_key src package"
  shows "map_of m' k = map_of m k"
  using set_field_frame [OF assms(1), of k] assms(2) by blast

lemma write_urls_keeps:
  assumes "write_urls ip (PDict package) m = Inr m'"
    and "k \<noteq> ''urls'' \<or> \<not> (has_key ''homepage'' package \<or> has_key ''bugs'' package
            \<or> has_key ''repository'' package)"
  shows "map_of m' k = map_of m k"
  using write_urls_frame [OF assms(1), of k] assms(2) by blast

lemma update_keeps_key:
  assumes n1: "k \<noteq> ''author'' \<or> \<not> has_key ''author'' package"
    and n2: "k \<noteq> ''maintainers'' \<or> \<not> has_key ''contributors'' package"
    and n3: "k \<noteq> ''keywords'' \<or> \<not> has_key ''keywords'' package"
    and n4: "k \<noteq> ''description'' \<or> \<not> has_key ''description'' package"
    and n5: "k \<noteq> ''license'' \<or> \<not> has_key ''license'' package"
    and n6: "k \<noteq> ''urls'' \<or> \<not> (has_key ''homepage'' package \<or> has_key ''bugs'' package
            \<or> has_key ''repository'' package)"
  shows "map_of (fst (update ip (Inr (PDict package)) metadata)) k = map_of metadata k"
  unfolding update_steps field_steps_def
proof (rule run_steps_frame6)
  fix m m'
  show "set_field ''author'' ''author'' parse_person (PDict package) m = Inr m'
        \<Longrightarrow> map_of m' k = map_of m k"
    by (rule set_field_keeps [OF _ n1])
  show "set_field ''contributors'' ''maintainers'' parse_contributors (PDict package) m = Inr m'
        \<Longrightarrow> map_of m' k = map_of m k"
    by (rule set_field_keeps [OF _ n2])
  show "set_field ''keywords'' ''keywords'' Inr (PDict package) m = Inr m'
        \<Longrightarrow> map_of m' k = map_of m k"
    by (rule set_field_keeps [OF _ n3])
  show "set_field ''description'' ''description'' Inr (PDict package) m = Inr m'
        \<Longrightarrow> map_of m' k = map_of m k"
    by (rule set_field_keeps [OF _ n4])
  show "set_field ''license'' ''license'' Inr (PDict package) m = Inr m'
        \<Longrightarrow> map_of m' k = map_of m k"
    by (rule set_field_keeps [OF _ n5])
  show "write_urls ip (PDict package) m = Inr m' \<Longrightarrow> map_of m' k = map_of m k"
    by (rule write_urls_keeps [OF _ n6])
qed

section \<open>The person parser\<close>

text \<open>
  Claim C1. An author or contributor object that has an \<^verbatim>\<open>email\<close> or a \<^verbatim>\<open>url\<close> key, and the \<^verbatim>\<open>name\<close> key its name is read from, is parsed to a record whose name is the object's name as it is, whose email is the object's email (present exactly when the object has one), and which has no \<^verbatim>\<open>url\<close> key.
\<close>

theorem parse_person_structured:
  assumes "has_key ''url'' person \<or> has_key ''email'' person"
    and "map_of person ''name'' = Some name"
  shows "\<exists>r. parse_person (PDict person) = Inr (PDict r) \<and>
           map_of r ''name'' = Some name \<and>
           map_of r ''email'' = map_of person ''email'' \<and>
           (has_key ''email'' r \<longleftrightarrow> has_key ''email'' person) \<and>
           \<not> has_key ''url'' r"
  using assms by (auto simp: has_key_def getitem_def split: option.splits)

theorem parse_person_structured_witness:
  "(has_key ''url'' [(''name'', PStr ''Jane Doe''), (''url'', PStr ''https://jane.dev'')]
      \<or> has_key ''email'' [(''name'', PStr ''Jane Doe''), (''url'', PStr ''https://jane.dev'')])
   \<and> map_of [(''name'', PStr ''Jane Doe''), (''url'', PStr ''https://jane.dev'')] ''name''
        = Some (PStr ''Jane Doe'')
   \<and> (\<exists>r. parse_person (PDict [(''name'', PStr ''Jane Doe''), (''url'', PStr ''https://jane.dev'')])
              = Inr (PDict r)
          \<and> map_of r ''name'' = Some (PStr ''Jane Doe'')
          \<and> map_of r ''email'' = None
          \<and> \<not> has_key ''email'' r \<and> \<not> has_key ''url'' r)"
  using parse_person_structured
    [of "[(''name'', PStr ''Jane Doe''), (''url'', PStr ''https://jane.dev'')]" "PStr ''Jane Doe''"]
  by (simp add: has_key_def)

text \<open>
  Claim C3. The name of an emitted person record is not always a string: for the author string \<^verbatim>\<open><jane@example.com>\<close> the pattern matches with no display name captured, and the record's name is \<^verbatim>\<open>None\<close>, not the empty string; the same holds for the empty author string.
\<close>

theorem parse_person_name_none:
  "parse_person (PDict [(''name'', PStr ''<jane@example.com>'')])
     = Inr (PDict [(''name'', PNone), (''email'', PStr ''jane@example.com'')])
   \<and> parse_person (PDict [(''name'', PStr [])]) = Inr (PDict [(''name'', PNone)])"
  by code_simp

text \<open>
  Claim C9. For an object without \<^verbatim>\<open>url\<close> and \<^verbatim>\<open>email\<close> keys whose name is a string: when the string does not match the author pattern, the parser fails with a \<^verbatim>\<open>ValueError\<close> whose message ends with the string; when it matches, the parser returns a record.
\<close>

theorem parse_person_value_error:
  assumes "\<not> has_key ''url'' person" and "\<not> has_key ''email'' person"
    and "map_of person ''name'' = Some (PStr name)"
  shows "(re_match AUTHOR_PATTERN name = None \<longrightarrow>
            parse_person (PDict person) = Inl (ValueError (''Invalid author name: '' @ name)))
       \<and> (re_match AUTHOR_PATTERN name \<noteq> None \<longrightarrow> (\<exists>r. parse_person (PDict person) = Inr r))"
  using assms by (auto simp: getitem_def split: option.splits)

lemma author_no_match: "re_match AUTHOR_PATTERN ''Jane ('' = None"
  by code_simp

lemma author_match: "re_match AUTHOR_PATTERN ''Jane'' \<noteq> None"
  by code_simp

theorem parse_person_value_error_witness:
  "parse_person (PDict [(''name'', PStr ''Jane ('')])
      = Inl (ValueError ''Invalid author name: Jane ('')
   \<and> (\<exists>r. parse_person (PDict [(''name'', PStr ''Jane'')]) = Inr r)"
  using parse_person_value_error [of "[(''name'', PStr ''Jane ('')]" "''Jane (''"]
    parse_person_value_error [of "[(''name'', PStr ''Jane'')]" "''Jane''"]
    author_no_match author_match
  by (simp add: has_key_def)

section \<open>The bugs resolver\<close>

text \<open>
  Claim C7. As stated the claim fails: the object \<^verbatim>\<open>{"url": null}\<close> has a \<^verbatim>\<open>url\<close> key, and
  the bugs resolver still returns \<^verbatim>\<open>None\<close> (the value of the key), so that \<^verbatim>\<open>update\<close>, which
  stores the result only when it is not \<^verbatim>\<open>None\<close>, writes no \<^verbatim>\<open>bug tracker\<close> label.
\<close>

theorem bugs_resolver_counterexample:
  "map_of [(''url'', PNone)] ''url'' = Some PNone
   \<and> parse_bugs (PDict [(''url'', PNone)]) = Inr PNone
   \<and> construct_urls (\<lambda>_. None) (PDict [(''bugs'', PDict [(''url'', PNone)])]) = Inr []
   \<and> update (\<lambda>_. None) (Inr (PDict [(''bugs'', PDict [(''url'', PNone)])])) [] = ([], None)"
  by code_simp

text \<open>
  Claim C7, amended. The bugs resolver returns a string as it is; for an object it
  returns \<^verbatim>\<open>None\<close> exactly when the object has no \<^verbatim>\<open>url\<close> key or the value of \<^verbatim>\<open>url\<close> is
  \<^verbatim>\<open>None\<close>, and it returns the value of \<^verbatim>\<open>url\<close> whenever the key is there. When \<^verbatim>\<open>update\<close>
  completes on a manifest whose \<^verbatim>\<open>bugs\<close> is such an object, the URL map it assembled has
  no \<^verbatim>\<open>bug tracker\<close> label in exactly those two cases and has the value of \<^verbatim>\<open>url\<close> under
  \<^verbatim>\<open>bug tracker\<close> otherwise, and that map is what \<^verbatim>\<open>update\<close> stores under \<^verbatim>\<open>urls\<close>.
\<close>

theorem bugs_resolver:
  "parse_bugs (PStr s) = Inr (PStr s)
   \<and> (parse_bugs (PDict d) = Inr PNone
        \<longleftrightarrow> map_of d ''url'' = None \<or> map_of d ''url'' = Some PNone)
   \<and> (\<forall>v. map_of d ''url'' = Some v \<longrightarrow> parse_bugs (PDict d) = Inr v)
   \<and> (\<forall>package metadata metadata'.
         map_of package ''bugs'' = Some (PDict d)
         \<and> update ip (Inr (PDict package)) metadata = (metadata', None) \<longrightarrow>
         (\<exists>urls. construct_urls ip (PDict package) = Inr urls
            \<and> map_of metadata' ''urls''
                = (if urls = [] then map_of metadata ''urls'' else Some (PDict urls))
            \<and> (map_of urls ''bug tracker'' = None
                 \<longleftrightarrow> map_of d ''url'' = None \<or> map_of d ''url'' = Some PNone)
            \<and> (\<forall>v. map_of d ''url'' = Some v \<and> v \<noteq> PNone \<longrightarrow>
                  map_of urls ''bug tracker'' = Some v \<and> urls \<noteq> [])))"
proof (intro conjI allI impI)
  show "parse_bugs (PStr s) = Inr (PStr s)" by simp
next
  show "parse_bugs (PDict d) = Inr PNone
        \<longleftrightarrow> map_of d ''url'' = None \<or> map_of d ''url'' = Some PNone"
    by (cases "map_of d ''url''") (simp_all add: has_key_def getitem_def)
next
  fix v assume "map_of d ''url'' = Some v"
  then show "parse_bugs (PDict d) = Inr v" by (simp add: has_key_def getitem_def)
next
  fix package metadata metadata'
  assume h: "map_of package ''bugs'' = Some (PDict d)
         \<and> update ip (Inr (PDict package)) metadata = (metadata', None)"
  then have b: "map_of package ''bugs'' = Some (PDict d)"
    and ok: "update ip (Inr (PDict package)) metadata = (metadata', None)"
    by simp_all
  obtain urls where c: "construct_urls ip (PDict package) = Inr urls"
    and w: "map_of metadata' ''urls''
              = (if urls = [] then map_of metadata ''urls'' else Some (PDict urls))"
    using update_ok_urls [OF ok] by blast
  show "\<exists>urls. construct_urls ip (PDict package) = Inr urls
            \<and> map_of metadata' ''urls''
                = (if urls = [] then map_of metadata ''urls'' else Some (PDict urls))
            \<and> (map_of urls ''bug tracker'' = None
                 \<longleftrightarrow> map_of d ''url'' = None \<or> map_of d ''url'' = Some PNone)
            \<and> (\<forall>v. map_of d ''url'' = Some v \<and> v \<noteq> PNone \<longrightarrow>
                  map_of urls ''bug tracker'' = Some v \<and> urls \<noteq> [])"
  proof (intro exI [of _ urls] conjI allI impI)
    show "construct_urls ip (PDict package) = Inr urls" by (rule c)
    show "map_of metadata' ''urls''
            = (if urls = [] then map_of metadata ''urls'' else Some (PDict urls))" by (rule w)
  next
    show "map_of urls ''bug tracker'' = None
            \<longleftrightarrow> map_of d ''url'' = None \<or> map_of d ''url'' = Some PNone"
    proof (cases "map_of d ''url''")
      case None
      then have "parse_bugs (PDict d) = Inr PNone" by (simp add: has_key_def)
      from construct_urls_bug_tracker [OF b this c] None
      show ?thesis by simp
    next
      case (Some x)
      then have "parse_bugs (PDict d) = Inr x" by (simp add: has_key_def getitem_def)
      from construct_urls_bug_tracker [OF b this c] Some
      show ?thesis by (cases "x = PNone") simp_all
    qed
  next
    fix v assume v: "map_of d ''url'' = Some v \<and> v \<noteq> PNone"
    then have "parse_bugs (PDict d) = Inr v" by (simp add: has_key_def getitem_def)
    from construct_urls_bug_tracker [OF b this c] v
    show t: "map_of urls ''bug tracker'' = Some v" by simp
    then show "urls \<noteq> []" by (cases urls) simp_all
  qed
qed

lemma bugs_example_update:
  "update (\<lambda>_. None) (Inr (PDict [(''bugs'', PDict [(''url'', PStr ''https://x/issues'')])])) []
     = ([(''urls'', PDict [(''bug tracker'', PStr ''https://x/issues'')])], None)"
  by code_simp

lemma bugs_empty_update:
  "update (\<lambda>_. None) (Inr (PDict [(''bugs'', PDict [])])) [] = ([], None)"
  by code_simp

theorem bugs_resolver_witness:
  "parse_bugs (PStr ''https://x/issues'') = Inr (PStr ''https://x/issues'')
   \<and> parse_bugs (PDict []) = Inr PNone
   \<and> parse_bugs (PDict [(''url'', PStr ''https://x/issues'')]) = Inr (PStr ''https://x/issues'')
   \<and> update (\<lambda>_. None) (Inr (PDict [(''bugs'', PDict [(''url'', PStr ''https://x/issues'')])])) []
       = ([(''urls'', PDict [(''bug tracker'', PStr ''https://x/issues'')])], None)
   \<and> (\<exists>urls. construct_urls (\<lambda>_. None)
                (PDict [(''bugs'', PDict [(''url'', PStr ''https://x/issues'')])]) = Inr urls
          \<and> map_of urls ''bug tracker'' = Some (PStr ''https://x/issues''))
   \<and> update (\<lambda>_. None) (Inr (PDict [(''bugs'', PDict [])])) [] = ([], None)
   \<and> (\<exists>urls. construct_urls (\<lambda>_. None) (PDict [(''bugs'', PDict [])]) = Inr urls
          \<and> map_of urls ''bug tracker'' = None)"
proof -
  let ?d = "[(''url'', PStr ''https://x/issues'')]"
  let ?p = "[(''bugs'', PDict ?d)]"
  let ?q = "[(''bugs'', PDict [])]"
  note t = bugs_resolver [of "''https://x/issues''" ?d "\<lambda>_. None"]
  note t0 = bugs_resolver [of "''https://x/issues''" "[]" "\<lambda>_. None"]
  note e = bugs_example_update
  note e0 = bugs_empty_update
  have b: "map_of ?p ''bugs'' = Some (PDict ?d)"
    and u: "map_of ?d ''url'' = Some (PStr ''https://x/issues'') \<and> PStr ''https://x/issues'' \<noteq> PNone"
    and b0: "map_of ?q ''bugs'' = Some (PDict [])"
    and u0: "map_of ([] :: pydict) ''url'' = None \<or> map_of ([] :: pydict) ''url'' = Some PNone"
    by simp_all
  have 1: "parse_bugs (PStr ''https://x/issues'') = Inr (PStr ''https://x/issues'')"
    by (rule t [THEN conjunct1])
  have 0: "parse_bugs (PDict []) = Inr PNone"
    by (rule t0 [THEN conjunct2, THEN conjunct1, THEN iffD2, OF u0])
  have 2: "parse_bugs (PDict ?d) = Inr (PStr ''https://x/issues'')"
    by (rule t [THEN conjunct2, THEN conjunct2, THEN conjunct1, rule_format]) simp
  obtain urls where c: "construct_urls (\<lambda>_. None) (PDict ?p) = Inr urls"
    and v: "\<forall>v. map_of ?d ''url'' = Some v \<and> v \<noteq> PNone \<longrightarrow>
                 map_of urls ''bug tracker'' = Some v \<and> urls \<noteq> []"
    using t [THEN conjunct2, THEN conjunct2, THEN conjunct2, rule_format, OF conjI [OF b e]]
    by blast
  have 3: "map_of urls ''bug tracker'' = Some (PStr ''https://x/issues'')"
    using v [rule_format, OF u] by (rule conjunct1)
  obtain urls0 where c0: "construct_urls (\<lambda>_. None) (PDict ?q) = Inr urls0"
    and n0: "map_of urls0 ''bug tracker'' = None
               \<longleftrightarrow> map_of ([] :: pydict) ''url'' = None \<or> map_of ([] :: pydict) ''url'' = Some PNone"
    using t0 [THEN conjunct2, THEN conjunct2, THEN conjunct2, rule_format, OF conjI [OF b0 e0]]
    by (elim exE conjE) (rule that)
  have 4: "map_of urls0 ''bug tracker'' = None"
    by (rule n0 [THEN iffD2, OF u0])
  have x: "\<exists>urls. construct_urls (\<lambda>_. None) (PDict ?p) = Inr urls
          \<and> map_of urls ''bug tracker'' = Some (PStr ''https://x/issues'')"
    using c 3 by blast
  have x0: "\<exists>urls. construct_urls (\<lambda>_. None) (PDict ?q) = Inr urls
          \<and> map_of urls ''bug tracker'' = None"
    using c0 4 by blast
  show ?thesis
    by (intro conjI) (rule 1 0 2 e x e0 x0)+
qed

section \<open>What update writes\<close>

text \<open>
  Claim C8. On a manifest that holds only a description, \<^verbatim>\<open>update\<close> sets \<^verbatim>\<open>description\<close> and nothing else. On any manifest, a key of the metadata changes only if it is one of the six keys \<^verbatim>\<open>update\<close> writes and the manifest field it comes from is present (also when \<^verbatim>\<open>update\<close> ends in an exception). When \<^verbatim>\<open>update\<close> completes, \<^verbatim>\<open>urls\<close> is left as it was if the assembled URL map is empty and is that map otherwise.
\<close>

theorem update_frame:
  "update ip (Inr (PDict [(''description'', x)])) metadata
     = (setitem ''description'' x metadata, None)
   \<and> ((k \<noteq> ''author'' \<or> \<not> has_key ''author'' package)
      \<and> (k \<noteq> ''maintainers'' \<or> \<not> has_key ''contributors'' package)
      \<and> (k \<noteq> ''keywords'' \<or> \<not> has_key ''keywords'' package)
      \<and> (k \<noteq> ''description'' \<or> \<not> has_key ''description'' package)
      \<and> (k \<noteq> ''license'' \<or> \<not> has_key ''license'' package)
      \<and> (k \<noteq> ''urls'' \<or> \<not> (has_key ''homepage'' package \<or> has_key ''bugs'' package
            \<or> has_key ''repository'' package))
      \<longrightarrow> map_of (fst (update ip (Inr (PDict package)) metadata)) k = map_of metadata k)
   \<and> (\<forall>metadata' urls.
        update ip (Inr (PDict package)) metadata = (metadata', None)
        \<and> construct_urls ip (PDict package) = Inr urls \<longrightarrow>
        map_of metadata' ''urls''
          = (if urls = [] then map_of metadata ''urls'' else Some (PDict urls)))"
proof (intro conjI allI impI)
  show "update ip (Inr (PDict [(''description'', x)])) metadata
          = (setitem ''description'' x metadata, None)"
    by (rule update_description_only)
next
  assume "(k \<noteq> ''author'' \<or> \<not> has_key ''author'' package)
      \<and> (k \<noteq> ''maintainers'' \<or> \<not> has_key ''contributors'' package)
      \<and> (k \<noteq> ''keywords'' \<or> \<not> has_key ''keywords'' package)
      \<and> (k \<noteq> ''description'' \<or> \<not> has_key ''description'' package)
      \<and> (k \<noteq> ''license'' \<or> \<not> has_key ''license'' package)
      \<and> (k \<noteq> ''urls'' \<or> \<not> (has_key ''homepage'' package \<or> has_key ''bugs'' package
            \<or> has_key ''repository'' package))"
  then show "map_of (fst (update ip (Inr (PDict package)) metadata)) k = map_of metadata k"
    by (elim conjE) (rule update_keeps_key)
next
  fix metadata' urls
  assume h: "update ip (Inr (PDict package)) metadata = (metadata', None)
        \<and> construct_urls ip (PDict package) = Inr urls"
  obtain urls' where "construct_urls ip (PDict package) = Inr urls'"
    and w: "map_of metadata' ''urls''
          = (if urls' = [] then map_of metadata ''urls'' else Some (PDict urls'))"
    using update_ok_urls [OF h [THEN conjunct1]] by blast
  moreover from this h have "urls' = urls" by simp
  ultimately show "map_of metadata' ''urls''
          = (if urls = [] then map_of metadata ''urls'' else Some (PDict urls))"
    by simp
qed

lemma empty_bugs_update:
  "update (\<lambda>_. None) (Inr (PDict [(''bugs'', PDict [])])) [(''urls'', PStr ''kept'')]
     = ([(''urls'', PStr ''kept'')], None)"
  by code_simp

lemma empty_bugs_urls:
  "construct_urls (\<lambda>_. None) (PDict [(''bugs'', PDict [])]) = Inr []"
  by code_simp

theorem update_frame_witness:
  "update (\<lambda>_. None) (Inr (PDict [(''description'', PStr ''x'')])) []
     = ([(''description'', PStr ''x'')], None)
   \<and> map_of (fst (update (\<lambda>_. None) (Inr (PDict [(''description'', PStr ''x'')])) []))
        ''author'' = None
   \<and> map_of (fst (update (\<lambda>_. None) (Inr (PDict [(''description'', PStr ''x'')])) []))
        ''urls'' = None
   \<and> map_of [(''urls'', PStr ''kept'')] ''urls'' = Some (PStr ''kept'')
   \<and> update (\<lambda>_. None) (Inr (PDict [(''bugs'', PDict [])])) [(''urls'', PStr ''kept'')]
        = ([(''urls'', PStr ''kept'')], None)"
proof -
  let ?p = "[(''description'', PStr ''x'')]"
  have 1: "update (\<lambda>_. None) (Inr (PDict ?p)) [] = ([(''description'', PStr ''x'')], None)"
    using update_frame [of "\<lambda>_. None" "PStr ''x''" "[]" "''author''" ?p, THEN conjunct1]
    by simp
  have 2: "map_of (fst (update (\<lambda>_. None) (Inr (PDict ?p)) [])) ''author'' = None"
    using update_frame [of "\<lambda>_. None" "PStr ''x''" "[]" "''author''" ?p,
        THEN conjunct2, THEN conjunct1]
    by (simp add: has_key_def)
  have 3: "map_of (fst (update (\<lambda>_. None) (Inr (PDict ?p)) [])) ''urls'' = None"
    using update_frame [of "\<lambda>_. None" "PStr ''x''" "[]" "''urls''" ?p,
        THEN conjunct2, THEN conjunct1]
    by (simp add: has_key_def)
  have 4: "map_of [(''urls'', PStr ''kept'')] ''urls'' = Some (PStr ''kept'')"
    using update_frame [of "\<lambda>_. None" "PStr ''x''" "[(''urls'', PStr ''kept'')]" "''urls''"
        "[(''bugs'', PDict [])]", THEN conjunct2, THEN conjunct2, rule_format,
        OF conjI [OF empty_bugs_update empty_bugs_urls]]
    by simp
  show ?thesis using 1 2 3 4 empty_bugs_update by simp
qed

section \<open>Repository objects\<close>

text \<open>
  Claim C10. A repository object with no \<^verbatim>\<open>url\<close> key makes the repository resolver raise \<^verbatim>\<open>KeyError('url')\<close>, where the bugs resolver returns \<^verbatim>\<open>None\<close> for the same object; \<^verbatim>\<open>update\<close> on a manifest with such a repository always ends in an exception, and that exception is the key error when no earlier field (author, contributors, bugs) is present to raise first.
\<close>

theorem repository_missing_url:
  assumes "map_of d ''url'' = None"
  shows "parse_repository ip (PDict d) = Inl (KeyError ''url'')
       \<and> parse_bugs (PDict d) = Inr PNone
       \<and> (\<forall>package metadata. map_of package ''repository'' = Some (PDict d) \<longrightarrow>
            (\<exists>e. snd (update ip (Inr (PDict package)) metadata) = Some e)
          \<and> (\<not> has_key ''author'' package \<and> \<not> has_key ''contributors'' package
               \<and> \<not> has_key ''bugs'' package \<longrightarrow>
             snd (update ip (Inr (PDict package)) metadata) = Some (KeyError ''url'')))"
proof -
  have r: "parse_repository ip (PDict d) = Inl (KeyError ''url'')"
    using assms by (simp add: getitem_def)
  have b: "parse_bugs (PDict d) = Inr PNone"
    using assms by (simp add: has_key_def)
  have u: "\<exists>e. snd (update ip (Inr (PDict package)) metadata) = Some e"
    if p: "map_of package ''repository'' = Some (PDict d)" for package metadata
  proof -
    obtain e' where "construct_urls ip (PDict package) = Inl e'"
      using construct_urls_repository_fails [OF p r] by blast
    then have "\<And>m. \<exists>e. write_urls ip (PDict package) m = Inl e"
      by (simp add: write_urls_def)
    then show ?thesis unfolding update_steps by (rule run_steps_last_fails)
  qed
  have k: "snd (update ip (Inr (PDict package)) metadata) = Some (KeyError ''url'')"
    if p: "map_of package ''repository'' = Some (PDict d)"
      and a: "\<not> has_key ''author'' package" "\<not> has_key ''contributors'' package"
      and nb: "\<not> has_key ''bugs'' package" for package metadata
  proof -
    obtain m where m: "run_steps (field_steps (PDict package)) metadata = (m, None)"
      using field_steps_ok [OF a] by blast
    have "write_urls ip (PDict package) m = Inl (KeyError ''url'')"
      using construct_urls_repository_error [OF p r nb] by (simp add: write_urls_def)
    then show ?thesis unfolding update_steps by (simp add: run_steps_append m)
  qed
  show ?thesis using r b u k by blast
qed

theorem repository_missing_url_witness:
  "map_of [(''type'', PStr ''git'')] ''url'' = None
   \<and> parse_repository (\<lambda>_. None) (PDict [(''type'', PStr ''git'')]) = Inl (KeyError ''url'')
   \<and> parse_bugs (PDict [(''type'', PStr ''git'')]) = Inr PNone
   \<and> snd (update (\<lambda>_. None)
            (Inr (PDict [(''description'', PStr ''x''),
                         (''repository'', PDict [(''type'', PStr ''git'')])])) [])
       = Some (KeyError ''url'')"
  using repository_missing_url [of "[(''type'', PStr ''git'')]" "\<lambda>_. None"]
  by (simp add: has_key_def)

section \<open>Running the patterns\<close>

lemma concat_map_Nil: "(\<And>x. x \<in> set xs \<Longrightarrow> f x = []) \<Longrightarrow> concat (map f xs) = []"
  by (induction xs) auto

lemma concat_map_upt_last:
  assumes "\<And>k. m \<le> k \<Longrightarrow> k < n \<Longrightarrow> f k = []" and "m \<le> n"
  shows "concat (map f [m ..< Suc n]) = f n"
proof -
  have "concat (map f [m ..< n]) = []"
    by (rule concat_map_Nil) (use assms(1) in auto)
  then show ?thesis using assms(2) by simp
qed

lemma advance_record:
  "advance k \<lparr>pos = p, rest = r, caps = c\<rparr> = \<lparr>pos = p + k, rest = drop k r, caps = c\<rparr>"
  by (simp add: advance_def)

lemma capture_record:
  "capture n \<lparr>pos = p, rest = r, caps = c\<rparr> \<lparr>pos = p', rest = r', caps = c'\<rparr>
     = \<lparr>pos = p', rest = r', caps = c'(n := Some (take (p' - p) r))\<rparr>"
  by (simp add: capture_def)

lemma startswith_append:
  "startswith (a @ b) s = (startswith a s \<and> startswith b (drop (length a) s))"
  by (induction a s rule: startswith.induct) auto

lemma startswith_iff: "startswith a s \<longleftrightarrow> (\<exists>r. s = a @ r)"
  by (induction a s rule: startswith.induct) auto

lemma dropWhile_stop:
  "(dropWhile (\<lambda>c. c \<noteq> x) xs = [] \<or> dropWhile (\<lambda>c. c \<noteq> x) xs = [x]) \<longleftrightarrow> x \<notin> set (butlast xs)"
  by (induction xs) auto

lemma inside_span:
  assumes "k < length (takeWhile P xs)"
  shows "\<exists>ys. drop k xs = (xs ! k) # ys \<and> P (xs ! k)"
proof -
  have l: "k < length xs" using assms length_takeWhile_le [of P xs] by simp
  have "takeWhile P xs ! k \<in> set (takeWhile P xs)" using assms by simp
  then have "P (takeWhile P xs ! k)" by (rule set_takeWhileD [THEN conjunct2])
  then have "P (xs ! k)" using assms by (simp add: takeWhile_nth)
  then show ?thesis using Cons_nth_drop_Suc [OF l] by metis
qed

lemma in_cset_fun:
  "in_cset Dot = (\<lambda>c. c \<noteq> nl)"
  "in_cset (OneOf cs) = (\<lambda>c. c \<in> set cs)"
  "in_cset (NoneOf cs) = (\<lambda>c. c \<notin> set cs)"
  by (rule ext, simp)+

lemma run_identifier_part:
  "run identifier_part \<lparr>pos = p, rest = r, caps = c\<rparr> =
     (if nl \<in> set (butlast r) then []
      else [\<lparr>pos = p + length (takeWhile (\<lambda>x. x \<noteq> nl) r),
             rest = dropWhile (\<lambda>x. x \<noteq> nl) r,
             caps = c(2 := Some (takeWhile (\<lambda>x. x \<noteq> nl) r))\<rparr>])"
proof -
  let ?s = "\<lparr>pos = p, rest = r, caps = c\<rparr>"
  let ?n = "length (takeWhile (\<lambda>x. x \<noteq> nl) r)"
  let ?h = "\<lambda>k. run Eol (capture 2 ?s (advance k ?s))"
  have sp: "span Dot ?s = ?n" by (simp add: span_def in_cset_fun)
  have r: "run identifier_part ?s = concat (map ?h [0 ..< Suc ?n])"
    unfolding identifier_part_def run.simps sp by (simp add: comp_def)
  have early: "?h k = []" if "k < ?n" for k
  proof -
    from inside_span [OF that]
    obtain ys where "drop k r = (r ! k) # ys" and "r ! k \<noteq> nl"
      by auto
    then show ?thesis by (simp add: advance_record capture_record)
  qed
  have "concat (map ?h [0 ..< Suc ?n]) = ?h ?n"
  proof (rule concat_map_upt_last)
    fix k assume "k < ?n"
    then show "?h k = []" by (rule early)
  qed simp
  moreover have "drop ?n r = dropWhile (\<lambda>c. c \<noteq> nl) r"
    by (simp add: dropWhile_eq_drop)
  moreover have "take ?n r = takeWhile (\<lambda>c. c \<noteq> nl) r"
    by (rule takeWhile_eq_take [symmetric])
  ultimately show ?thesis using r dropWhile_stop [of nl r]
    by (auto simp: advance_record capture_record)
qed

lemma run_provider_part:
  assumes "t \<in> {''gist'', ''bitbucket'', ''gitlab'', ''github''}"
  shows "run provider_part \<lparr>pos = p, rest = t @ '':'' @ r, caps = c\<rparr>
         = [\<lparr>pos = p + length t + 1, rest = r, caps = c(1 := Some t)\<rparr>]"
  using assms unfolding provider_part_def
  by (auto simp: advance_record capture_record)

lemma run_provider_part_none:
  assumes "\<And>t. t \<in> {''gist'', ''bitbucket'', ''gitlab'', ''github''}
             \<Longrightarrow> \<not> startswith (t @ '':'') r"
  shows "run provider_part \<lparr>pos = p, rest = r, caps = c\<rparr> = []"
proof -
  have "\<not> startswith (''gist'' @ '':'') r" "\<not> startswith (''bitbucket'' @ '':'') r"
    "\<not> startswith (''gitlab'' @ '':'') r" "\<not> startswith (''github'' @ '':'') r"
    using assms by blast+
  then show ?thesis unfolding startswith_append provider_part_def
    by (auto simp: advance_record capture_record)
qed

lemma run_repository_pattern:
  "run REPOSITORY_PATTERN \<lparr>pos = 0, rest = str, caps = c\<rparr> =
     concat (map (run identifier_part) (run provider_part \<lparr>pos = 0, rest = str, caps = c\<rparr>))
     @ run identifier_part \<lparr>pos = 0, rest = str, caps = c\<rparr>"
  unfolding REPOSITORY_PATTERN_def by simp

lemma butlast_after_tag:
  assumes "t \<in> {''gist'', ''bitbucket'', ''gitlab'', ''github''}"
  shows "nl \<in> set (butlast (t @ '':'' @ r)) \<longleftrightarrow> nl \<in> set (butlast r)"
  using assms by (cases "r = []") (auto simp: butlast_append)

lemma repository_match_tagged:
  assumes t: "t \<in> {''gist'', ''bitbucket'', ''gitlab'', ''github''}"
    and n: "nl \<notin> set (butlast r)"
  shows "re_match REPOSITORY_PATTERN (t @ '':'' @ r)
           = Some ((\<lambda>_. None)(1 := Some t, 2 := Some (takeWhile (\<lambda>c. c \<noteq> nl) r)))"
  unfolding re_match_def run_repository_pattern run_provider_part [OF t]
  using n by (simp add: run_identifier_part)

lemma repository_match_plain:
  assumes t: "\<And>t. t \<in> {''gist'', ''bitbucket'', ''gitlab'', ''github''}
             \<Longrightarrow> \<not> startswith (t @ '':'') str"
    and n: "nl \<notin> set (butlast str)"
  shows "re_match REPOSITORY_PATTERN str
           = Some ((\<lambda>_. None)(2 := Some (takeWhile (\<lambda>c. c \<noteq> nl) str)))"
proof -
  have p: "run provider_part \<lparr>pos = 0, rest = str, caps = (\<lambda>_. None)\<rparr> = []"
    by (rule run_provider_part_none) (rule t)
  show ?thesis unfolding re_match_def run_repository_pattern p
    using n by (simp add: run_identifier_part)
qed

lemma repository_no_match:
  assumes n: "nl \<in> set (butlast str)"
  shows "re_match REPOSITORY_PATTERN str = None"
proof (cases "\<exists>t \<in> {''gist'', ''bitbucket'', ''gitlab'', ''github''}. startswith (t @ '':'') str")
  case True
    then obtain t where t: "t \<in> {''gist'', ''bitbucket'', ''gitlab'', ''github''}"
      and "startswith (t @ '':'') str" by blast
    then obtain r where "str = (t @ '':'') @ r" unfolding startswith_iff by blast
    then have s: "str = t @ '':'' @ r" by simp
  have "nl \<in> set (butlast r)" using n butlast_after_tag [OF t] unfolding s by simp
  then show ?thesis
    unfolding re_match_def s run_repository_pattern run_provider_part [OF t]
    using n [unfolded s] by (simp add: run_identifier_part)
next
  case False
  have p: "run provider_part \<lparr>pos = 0, rest = str, caps = (\<lambda>_. None)\<rparr> = []"
    by (rule run_provider_part_none) (use False in blast)
  show ?thesis unfolding re_match_def run_repository_pattern p
    using n by (simp add: run_identifier_part)
qed

lemma repository_match_iff:
  "re_match REPOSITORY_PATTERN str = None \<longleftrightarrow> nl \<in> set (butlast str)"
proof (cases "nl \<in> set (butlast str)")
  case True
  then show ?thesis by (simp add: repository_no_match)
next
  case False
  show ?thesis
  proof (cases "\<exists>t \<in> {''gist'', ''bitbucket'', ''gitlab'', ''github''}. startswith (t @ '':'') str")
    case True
    then obtain t where t: "t \<in> {''gist'', ''bitbucket'', ''gitlab'', ''github''}"
      and "startswith (t @ '':'') str" by blast
    then obtain r where "str = (t @ '':'') @ r" unfolding startswith_iff by blast
    then have s: "str = t @ '':'' @ r" by simp
    have "nl \<notin> set (butlast r)" using False butlast_after_tag [OF t] unfolding s by simp
    from repository_match_tagged [OF t this] show ?thesis using False unfolding s by simp
  next
    case f: False
    have "re_match REPOSITORY_PATTERN str
           = Some ((\<lambda>_. None)(2 := Some (takeWhile (\<lambda>c. c \<noteq> nl) str)))"
      by (rule repository_match_plain) (use f False in auto)
    then show ?thesis using False by simp
  qed
qed

section \<open>The repository resolver\<close>

lemma repository_table_dom:
  "REPOSITORY_TABLE t \<noteq> None \<longleftrightarrow> t \<in> {''gist'', ''bitbucket'', ''gitlab'', ''github''}"
  unfolding REPOSITORY_TABLE_def by auto

lemma takeWhile_no_nl: "nl \<notin> set xs \<Longrightarrow> takeWhile (\<lambda>c. c \<noteq> nl) xs = xs"
  by (induction xs) auto

lemma not_in_butlast: "x \<notin> set xs \<Longrightarrow> x \<notin> set (butlast xs)"
  by (auto dest: in_set_butlastD)

lemma parse_repository_tagged:
  assumes b: "REPOSITORY_TABLE tag = Some base" and n: "nl \<notin> set identifier"
  shows "parse_repository ip (PStr (tag @ '':'' @ identifier))
           = map_sum (\<lambda>e. e) PStr (urljoin ip base identifier)"
proof -
  have t: "tag \<in> {''gist'', ''bitbucket'', ''gitlab'', ''github''}"
    using b repository_table_dom [of tag] by simp
  have m: "re_match REPOSITORY_PATTERN (tag @ '':'' @ identifier)
             = Some ((\<lambda>_. None)(1 := Some tag, 2 := Some identifier))"
    using repository_match_tagged [OF t not_in_butlast [OF n]] takeWhile_no_nl [OF n] by simp
  show ?thesis
    unfolding parse_repository.simps m using b
    by (cases "urljoin ip base identifier") simp_all
qed

lemma parse_repository_plain:
  assumes t: "\<forall>t. REPOSITORY_TABLE t \<noteq> None \<longrightarrow> \<not> startswith (t @ '':'') repository"
    and n: "nl \<notin> set repository"
  shows "re_match REPOSITORY_PATTERN repository = Some ((\<lambda>_. None)(2 := Some repository))"
    and "parse_repository ip (PStr repository)
           = map_sum (\<lambda>e. e) PStr (urljoin ip ''https://github.com'' repository)"
proof -
  have "re_match REPOSITORY_PATTERN repository
          = Some ((\<lambda>_. None)(2 := Some (takeWhile (\<lambda>c. c \<noteq> nl) repository)))"
  proof (rule repository_match_plain)
    fix t assume "t \<in> {''gist'', ''bitbucket'', ''gitlab'', ''github''}"
    then have "REPOSITORY_TABLE t \<noteq> None" by (simp only: repository_table_dom)
    then show "\<not> startswith (t @ '':'') repository" using t by blast
  qed (rule not_in_butlast [OF n])
  then show m: "re_match REPOSITORY_PATTERN repository = Some ((\<lambda>_. None)(2 := Some repository))"
    using takeWhile_no_nl [OF n] by simp
  have g: "REPOSITORY_TABLE ''github'' = Some ''https://github.com''"
    by (simp add: REPOSITORY_TABLE_def)
  show "parse_repository ip (PStr repository)
           = map_sum (\<lambda>e. e) PStr (urljoin ip ''https://github.com'' repository)"
    unfolding parse_repository.simps m using g
    by (cases "urljoin ip ''https://github.com'' repository") simp_all
qed

lemma parse_repository_no_match:
  assumes "nl \<in> set (butlast repository)"
  shows "parse_repository ip (PStr repository)
           = Inl (ValueError (''Invalid repository string: '' @ repository))"
  unfolding parse_repository.simps repository_no_match [OF assms] by simp

lemma provider_examples:
  "parse_repository ip (PStr ''github:foo/bar'') = Inr (PStr ''https://github.com/foo/bar'')"
  "parse_repository ip (PStr ''foo/bar'') = Inr (PStr ''https://github.com/foo/bar'')"
  "parse_repository ip (PStr ''gitlab:baz/qux'') = Inr (PStr ''https://gitlab.com/baz/qux'')"
  by code_simp+

text \<open>
  Claim C4. As stated the claim fails: \<^verbatim>\<open>gitlab:baz\nqux\<close> has a known provider tag, but the pattern does not match it (\<^verbatim>\<open>.\<close> does not match the line feed, \<^verbatim>\<open>$\<close> does not match before it) and the resolver raises, where joining the base and the identifier would give a URL.
\<close>

theorem repository_known_provider_counterexample:
  "parse_repository (\<lambda>_. None) (PStr (''gitlab:baz'' @ [nl] @ ''qux''))
     = Inl (ValueError (''Invalid repository string: gitlab:baz'' @ [nl] @ ''qux''))
   \<and> REPOSITORY_TABLE ''gitlab'' = Some ''https://gitlab.com''
   \<and> urljoin (\<lambda>_. None) ''https://gitlab.com'' (''baz'' @ [nl] @ ''qux'')
       = Inr ''https://gitlab.com/bazqux''"
  by code_simp

text \<open>
  Claim C4, amended. The three strings of the claim resolve as it says. In general, for a tag of the provider table followed by a colon and an identifier without line feed, the result is \<^verbatim>\<open>urljoin\<close> of the tag's base URL and the identifier (its URL, or the exception it raises).
\<close>

theorem repository_known_provider:
  "parse_repository ip (PStr ''github:foo/bar'') = Inr (PStr ''https://github.com/foo/bar'')
   \<and> parse_repository ip (PStr ''foo/bar'') = Inr (PStr ''https://github.com/foo/bar'')
   \<and> parse_repository ip (PStr ''gitlab:baz/qux'') = Inr (PStr ''https://gitlab.com/baz/qux'')
   \<and> (REPOSITORY_TABLE tag = Some base \<and> nl \<notin> set identifier \<longrightarrow>
        parse_repository ip (PStr (tag @ '':'' @ identifier))
          = map_sum (\<lambda>e. e) PStr (urljoin ip base identifier))"
proof (intro conjI impI)
  assume "REPOSITORY_TABLE tag = Some base \<and> nl \<notin> set identifier"
  then show "parse_repository ip (PStr (tag @ '':'' @ identifier))
          = map_sum (\<lambda>e. e) PStr (urljoin ip base identifier)"
    by (elim conjE) (rule parse_repository_tagged)
qed (rule provider_examples)+

lemma bitbucket_join:
  "urljoin (\<lambda>_. None) ''https://bitbucket.org'' ''team/project''
     = Inr ''https://bitbucket.org/team/project''"
  by code_simp

theorem repository_known_provider_witness:
  "REPOSITORY_TABLE ''bitbucket'' = Some ''https://bitbucket.org''
   \<and> nl \<notin> set ''team/project''
   \<and> parse_repository (\<lambda>_. None) (PStr ''bitbucket:team/project'')
       = Inr (PStr ''https://bitbucket.org/team/project'')"
proof -
  have h: "REPOSITORY_TABLE ''bitbucket'' = Some ''https://bitbucket.org''
             \<and> nl \<notin> set ''team/project''"
    by (simp add: REPOSITORY_TABLE_def)
  have "parse_repository (\<lambda>_. None) (PStr (''bitbucket'' @ '':'' @ ''team/project''))
          = map_sum (\<lambda>e. e) PStr
              (urljoin (\<lambda>_. None) ''https://bitbucket.org'' ''team/project'')"
    by (rule repository_known_provider
          [of "\<lambda>_. None" "''bitbucket''" "''https://bitbucket.org''" "''team/project''",
           THEN conjunct2, THEN conjunct2, THEN conjunct2, rule_format, OF h])
  then have "parse_repository (\<lambda>_. None) (PStr ''bitbucket:team/project'')
       = Inr (PStr ''https://bitbucket.org/team/project'')"
    unfolding bitbucket_join by simp
  then show ?thesis using h by simp
qed

text \<open>
  Claim C5. As stated the claim fails: the prefix of \<^verbatim>\<open>npm:foo\nbar\<close> before the colon is no provider tag, but the string is not matched and the resolver raises, where resolving the whole string against the github base would give the string back.
\<close>

theorem repository_default_provider_counterexample:
  "parse_repository (\<lambda>_. None) (PStr (''npm:foo'' @ [nl] @ ''bar''))
     = Inl (ValueError (''Invalid repository string: npm:foo'' @ [nl] @ ''bar''))
   \<and> urljoin (\<lambda>_. None) ''https://github.com'' (''npm:foo'' @ [nl] @ ''bar'')
       = Inr (''npm:foo'' @ [nl] @ ''bar'')"
  by code_simp

lemma absolute_example:
  "parse_repository ip (PStr ''https://example.com/repo'') = Inr (PStr ''https://example.com/repo'')"
  by code_simp

text \<open>
  Claim C5, amended. For a string without line feed that does not start with a provider tag and a colon, the pattern captures no provider and the whole string as the identifier, and the result is \<^verbatim>\<open>urljoin\<close> of the github base URL and the string; an identifier that is an absolute URL comes back as it is.
\<close>

theorem repository_default_provider:
  "((\<forall>t. REPOSITORY_TABLE t \<noteq> None \<longrightarrow> \<not> startswith (t @ '':'') repository)
      \<and> nl \<notin> set repository \<longrightarrow>
      re_match REPOSITORY_PATTERN repository = Some ((\<lambda>_. None)(2 := Some repository))
      \<and> parse_repository ip (PStr repository)
          = map_sum (\<lambda>e. e) PStr (urljoin ip ''https://github.com'' repository))
   \<and> parse_repository ip (PStr ''https://example.com/repo'')
       = Inr (PStr ''https://example.com/repo'')"
proof (intro conjI impI)
  assume h: "(\<forall>t. REPOSITORY_TABLE t \<noteq> None \<longrightarrow> \<not> startswith (t @ '':'') repository)
      \<and> nl \<notin> set repository"
  show "re_match REPOSITORY_PATTERN repository = Some ((\<lambda>_. None)(2 := Some repository))"
    by (rule parse_repository_plain(1)) (use h in blast)+
  show "parse_repository ip (PStr repository)
          = map_sum (\<lambda>e. e) PStr (urljoin ip ''https://github.com'' repository)"
    by (rule parse_repository_plain(2)) (use h in blast)+
qed (rule absolute_example)

lemma unknown_tag_join:
  "urljoin (\<lambda>_. None) ''https://github.com'' ''hub:foo/bar'' = Inr ''hub:foo/bar''"
  by code_simp

lemma unknown_tag_free:
  "REPOSITORY_TABLE t \<noteq> None \<Longrightarrow> \<not> startswith (t @ '':'') ''hub:foo/bar''"
  unfolding repository_table_dom by auto

theorem repository_default_provider_witness:
  "\<not> startswith (''gist'' @ '':'') ''hub:foo/bar''
   \<and> nl \<notin> set ''hub:foo/bar''
   \<and> re_match REPOSITORY_PATTERN ''hub:foo/bar'' = Some ((\<lambda>_. None)(2 := Some ''hub:foo/bar''))
   \<and> parse_repository (\<lambda>_. None) (PStr ''hub:foo/bar'') = Inr (PStr ''hub:foo/bar'')"
proof -
  have h: "(\<forall>t. REPOSITORY_TABLE t \<noteq> None \<longrightarrow> \<not> startswith (t @ '':'') ''hub:foo/bar'')
             \<and> nl \<notin> set ''hub:foo/bar''"
    using unknown_tag_free by simp
  note t = repository_default_provider [of "''hub:foo/bar''" "\<lambda>_. None",
      THEN conjunct1, rule_format, OF h]
  have "parse_repository (\<lambda>_. None) (PStr ''hub:foo/bar'') = Inr (PStr ''hub:foo/bar'')"
    using t [THEN conjunct2] unfolding unknown_tag_join by simp
  then show ?thesis using t [THEN conjunct1] by simp
qed

text \<open>
  Claim C6. As stated the claim fails: the pattern does not match \<^verbatim>\<open>a\nb\<close>, and the resolver raises the \<^verbatim>\<open>ValueError\<close> of its match-failure branch.
\<close>

theorem repository_match_failure_counterexample:
  "re_match REPOSITORY_PATTERN [CHR ''a'', nl, CHR ''b''] = None
   \<and> parse_repository (\<lambda>_. None) (PStr [CHR ''a'', nl, CHR ''b''])
       = Inl (ValueError (''Invalid repository string: '' @ [CHR ''a'', nl, CHR ''b'']))"
  by code_simp

text \<open>
  Claim C6, amended. The repository pattern fails to match exactly the strings that have a line feed before their last character; on those the resolver raises \<^verbatim>\<open>ValueError\<close> with the message of the match-failure branch, and on every other string that branch is not taken.
\<close>

theorem repository_match_failure:
  "(re_match REPOSITORY_PATTERN repository = None \<longleftrightarrow> nl \<in> set (butlast repository))
   \<and> (nl \<in> set (butlast repository) \<longrightarrow>
        parse_repository ip (PStr repository)
          = Inl (ValueError (''Invalid repository string: '' @ repository)))"
proof (intro conjI impI)
  show "re_match REPOSITORY_PATTERN repository = None \<longleftrightarrow> nl \<in> set (butlast repository)"
    by (rule repository_match_iff)
next
  assume "nl \<in> set (butlast repository)"
  then show "parse_repository ip (PStr repository)
          = Inl (ValueError (''Invalid repository string: '' @ repository))"
    by (rule parse_repository_no_match)
qed

theorem repository_match_failure_witness:
  "nl \<in> set (butlast (''user/repo'' @ [nl] @ ''.git''))
   \<and> parse_repository (\<lambda>_. None) (PStr (''user/repo'' @ [nl] @ ''.git''))
       = Inl (ValueError (''Invalid repository string: '' @ ''user/repo'' @ [nl] @ ''.git''))
   \<and> re_match REPOSITORY_PATTERN (''user/repo'' @ [nl]) \<noteq> None"
proof -
  have h: "nl \<in> set (butlast (''user/repo'' @ [nl] @ ''.git''))" by simp
  have n: "nl \<notin> set (butlast (''user/repo'' @ [nl]))" by simp
  have 1: "parse_repository (\<lambda>_. None) (PStr (''user/repo'' @ [nl] @ ''.git''))
       = Inl (ValueError (''Invalid repository string: '' @ ''user/repo'' @ [nl] @ ''.git''))"
    by (rule repository_match_failure [of "''user/repo'' @ [nl] @ ''.git''" "\<lambda>_. None",
          THEN conjunct2, rule_format, OF h])
  have 2: "re_match REPOSITORY_PATTERN (''user/repo'' @ [nl]) \<noteq> None"
    using repository_match_failure [of "''user/repo'' @ [nl]" "\<lambda>_. None", THEN conjunct1] n
    by blast
  show ?thesis using h 1 2 by blast
qed

section \<open>The author pattern\<close>

text \<open>From here on the equations of \<open>run\<close> are unfolded by name only.\<close>

declare run.simps [simp del]

lemma run_blanks:
  "run blanks \<lparr>pos = p, rest = r, caps = c\<rparr>
     = map (\<lambda>k. \<lparr>pos = p + k, rest = drop k r, caps = c\<rparr>)
         (rev [0 ..< Suc (length (takeWhile (\<lambda>x. x = CHR '' '' \<or> x = tab) r))])"
proof -
  have "in_cset (OneOf [CHR '' '', tab]) = (\<lambda>x. x = CHR '' '' \<or> x = tab)"
    by (rule ext) auto
  then show ?thesis
    unfolding blanks_def run.simps span_def by (simp add: advance_record)
qed

lemma run_lazy_then_char:
  assumes "xs \<noteq> []" and "\<And>x. x \<in> set xs \<Longrightarrow> in_cset cs x" and "\<not> in_cset cs d"
  shows "run (Seq (Grp n (PlusLazy cs)) (Lit [d])) \<lparr>pos = p, rest = xs @ d # r, caps = c\<rparr>
           = [\<lparr>pos = p + length xs + 1, rest = r, caps = c(n := Some xs)\<rparr>]"
proof -
  let ?s = "\<lparr>pos = p, rest = xs @ d # r, caps = c\<rparr>"
  let ?h = "\<lambda>k. run (Lit [d]) (capture n ?s (advance k ?s))"
  have tw: "takeWhile (in_cset cs) (xs @ d # r) = xs"
    using assms(2,3) by (simp add: takeWhile_append2)
  have sp: "span cs ?s = length xs" by (simp add: span_def tw)
  have r: "run (Seq (Grp n (PlusLazy cs)) (Lit [d])) ?s = concat (map ?h [1 ..< Suc (length xs)])"
    unfolding run.simps sp by (simp add: comp_def)
  have early: "?h k = []" if "k < length xs" for k
  proof -
    have "drop k (xs @ d # r) = xs ! k # drop (Suc k) xs @ d # r"
      using that by (simp add: Cons_nth_drop_Suc)
    moreover have "xs ! k \<noteq> d" using assms(2) [of "xs ! k"] assms(3) that by auto
    ultimately show ?thesis by (simp add: run.simps advance_record capture_record)
  qed
  have "concat (map ?h [1 ..< Suc (length xs)]) = ?h (length xs)"
  proof (rule concat_map_upt_last)
    fix k assume "k < length xs"
    then show "?h k = []" by (rule early)
  next
    show "1 \<le> length xs" using assms(1) by (cases xs) simp_all
  qed
  then show ?thesis unfolding r by (simp add: run.simps advance_record capture_record)
qed


lemma run_email_part:
  assumes "e \<noteq> []" and "CHR ''>'' \<notin> set e" and "CHR ''('' \<notin> set e"
  shows "run email_part \<lparr>pos = p, rest = CHR ''<'' # e @ CHR ''>'' # r, caps = c\<rparr>
           = [\<lparr>pos = p + length e + 2, rest = r, caps = c(2 := Some e)\<rparr>]"
proof -
  have "run (Seq (Grp 2 (PlusLazy (NoneOf ''>(''))) (Lit ''>''))
          \<lparr>pos = p + 1, rest = e @ CHR ''>'' # r, caps = c\<rparr>
        = [\<lparr>pos = p + 1 + length e + 1, rest = r, caps = c(2 := Some e)\<rparr>]"
    by (rule run_lazy_then_char) (use assms in auto)
  then show ?thesis
    unfolding email_part_def run.simps(10) [of "Lit ''<''"] run.simps(3)
    by (simp add: advance_record)
qed

lemma run_email_part_none:
  assumes "\<not> startswith ''<'' r"
  shows "run email_part \<lparr>pos = p, rest = r, caps = c\<rparr> = []"
  unfolding email_part_def run.simps(10) [of "Lit ''<''"] run.simps(3)
  using assms by simp

lemma run_suffix_part:
  assumes "u \<noteq> []" and "CHR '')'' \<notin> set u"
  shows "run suffix_part \<lparr>pos = p, rest = CHR ''('' # u @ CHR '')'' # r, caps = c\<rparr>
           = [\<lparr>pos = p + length u + 2, rest = r, caps = c(3 := Some u)\<rparr>]"
proof -
  have "run (Seq (Grp 3 (PlusLazy (NoneOf '')''))) (Lit '')''))
          \<lparr>pos = p + 1, rest = u @ CHR '')'' # r, caps = c\<rparr>
        = [\<lparr>pos = p + 1 + length u + 1, rest = r, caps = c(3 := Some u)\<rparr>]"
    by (rule run_lazy_then_char) (use assms in auto)
  then show ?thesis
    unfolding suffix_part_def run.simps(9) run.simps(10) [of "Lit ''(''"] run.simps(3) run.simps(2)
    by (simp add: advance_record)
qed

lemma run_suffix_part_none:
  assumes "\<not> startswith ''('' r" and "r \<noteq> []" and "r \<noteq> [nl]"
  shows "run suffix_part \<lparr>pos = p, rest = r, caps = c\<rparr> = []"
  unfolding suffix_part_def run.simps(9) run.simps(10) [of "Lit ''(''"] run.simps(3) run.simps(2)
  using assms by simp

lemma run_suffix_part_end:
  "run suffix_part \<lparr>pos = p, rest = [], caps = c\<rparr> = [\<lparr>pos = p, rest = [], caps = c\<rparr>]"
  unfolding suffix_part_def run.simps(9) run.simps(10) [of "Lit ''(''"] run.simps(3) run.simps(2)
  by simp

lemma takeWhile_blanks:
  assumes "set w \<subseteq> {CHR '' '', tab}" and "r = [] \<or> hd r \<notin> {CHR '' '', tab}"
  shows "takeWhile (\<lambda>x. x = CHR '' '' \<or> x = tab) (w @ r) = w"
proof -
  have "takeWhile (\<lambda>x. x = CHR '' '' \<or> x = tab) r = []"
    using assms(2) by (cases r) auto
  moreover have "\<And>x. x \<in> set w \<Longrightarrow> x = CHR '' '' \<or> x = tab"
    using assms(1) by auto
  ultimately show ?thesis by (simp add: takeWhile_append2)
qed

lemma run_blanks_first:
  assumes "set w \<subseteq> {CHR '' '', tab}" and "r = [] \<or> hd r \<notin> {CHR '' '', tab}"
  shows "\<exists>more. run blanks \<lparr>pos = p, rest = w @ r, caps = c\<rparr>
           = \<lparr>pos = p + length w, rest = r, caps = c\<rparr> # more"
  unfolding run_blanks takeWhile_blanks [OF assms] by simp

lemma run_blanks_set:
  assumes "set w \<subseteq> {CHR '' '', tab}" and "r = [] \<or> hd r \<notin> {CHR '' '', tab}"
    and "s \<in> set (run blanks \<lparr>pos = p, rest = w @ r, caps = c\<rparr>)"
  shows "\<exists>k \<le> length w. s = \<lparr>pos = p + k, rest = drop k w @ r, caps = c\<rparr>"
  using assms(3) unfolding run_blanks takeWhile_blanks [OF assms(1,2)] by auto

lemma blank_run_head:
  assumes "set d \<subseteq> {CHR '' '', tab}"
  shows "\<exists>y ys. d @ x # r = y # ys \<and> ((y = x \<and> ys = r) \<or> y \<in> {CHR '' '', tab})"
  using assms by (cases d) auto

lemma blanks_then_suffix_none:
  assumes w: "set w \<subseteq> {CHR '' '', tab}" and x: "x \<notin> {CHR '' '', tab, CHR ''(''}"
    and e: "x = nl \<longrightarrow> r \<noteq> []"
  shows "run (Seq blanks suffix_part) \<lparr>pos = p, rest = w @ x # r, caps = c\<rparr> = []"
  unfolding run.simps(10)
proof (rule concat_map_Nil)
  fix s assume "s \<in> set (run blanks \<lparr>pos = p, rest = w @ x # r, caps = c\<rparr>)"
  then obtain k where "k \<le> length w"
    and s: "s = \<lparr>pos = p + k, rest = drop k w @ x # r, caps = c\<rparr>"
    using run_blanks_set [OF w, of "x # r" s p c] x by auto
  have "set (drop k w) \<subseteq> {CHR '' '', tab}" using w set_drop_subset [of k w] by blast
  from blank_run_head [OF this, of x r]
  obtain y ys where d: "drop k w @ x # r = y # ys"
    and "(y = x \<and> ys = r) \<or> y \<in> {CHR '' '', tab}" by blast
  then have "y \<noteq> CHR ''(''" and "y = nl \<longrightarrow> ys \<noteq> []" using x e by auto
  then show "run suffix_part s = []"
    unfolding s d by (intro run_suffix_part_none) auto
qed

lemma after_name_none:
  assumes w: "set w \<subseteq> {CHR '' '', tab}"
    and x: "x \<notin> {CHR '' '', tab, CHR ''<'', CHR ''(''}"
    and e: "x = nl \<longrightarrow> r \<noteq> []"
  shows "run after_name \<lparr>pos = p, rest = w @ x # r, caps = c\<rparr> = []"
  unfolding after_name_def run.simps(10) [of blanks]
proof (rule concat_map_Nil)
  fix s assume "s \<in> set (run blanks \<lparr>pos = p, rest = w @ x # r, caps = c\<rparr>)"
  then obtain k where "k \<le> length w"
    and s: "s = \<lparr>pos = p + k, rest = drop k w @ x # r, caps = c\<rparr>"
    using run_blanks_set [OF w, of "x # r" s p c] x by auto
  have dw: "set (drop k w) \<subseteq> {CHR '' '', tab}" using w set_drop_subset [of k w] by blast
  from blank_run_head [OF this, of x r]
  obtain y ys where d: "drop k w @ x # r = y # ys"
    and "(y = x \<and> ys = r) \<or> y \<in> {CHR '' '', tab}" by blast
  then have "\<not> startswith ''<'' (drop k w @ x # r)" using x by auto
  then have n: "run email_part s = []" unfolding s by (rule run_email_part_none)
  have "run (Seq blanks suffix_part) s = []"
    unfolding s by (rule blanks_then_suffix_none [OF dw _ e]) (use x in auto)
  then show "run (Seq (Opt email_part) (Seq blanks suffix_part)) s = []"
    unfolding run.simps(10) [of "Opt email_part"] run.simps(7) n by simp
qed

lemma after_name_end:
  "run after_name \<lparr>pos = p, rest = [], caps = c\<rparr> = [\<lparr>pos = p, rest = [], caps = c\<rparr>]"
proof -
  have b: "run blanks \<lparr>pos = p, rest = [], caps = c\<rparr> = [\<lparr>pos = p, rest = [], caps = c\<rparr>]"
    unfolding run_blanks by simp
  have n: "run email_part \<lparr>pos = p, rest = [], caps = c\<rparr> = []"
    by (rule run_email_part_none) simp
  show ?thesis
    unfolding after_name_def run.simps(10) run.simps(7) b
    by (simp add: n b run_suffix_part_end)
qed

lemma blanks_then_suffix_full:
  assumes w: "set w \<subseteq> {CHR '' '', tab}" and u: "u \<noteq> []" "CHR '')'' \<notin> set u"
  shows "\<exists>more. run (Seq blanks suffix_part)
            \<lparr>pos = p, rest = w @ CHR ''('' # u @ CHR '')'' # r, caps = c\<rparr>
          = \<lparr>pos = p + length w + length u + 2, rest = r, caps = c(3 := Some u)\<rparr> # more"
proof -
  obtain more where "run blanks \<lparr>pos = p, rest = w @ CHR ''('' # u @ CHR '')'' # r, caps = c\<rparr>
      = \<lparr>pos = p + length w, rest = CHR ''('' # u @ CHR '')'' # r, caps = c\<rparr> # more"
    using run_blanks_first [OF w, of "CHR ''('' # u @ CHR '')'' # r" p c] by auto
  then show ?thesis
    unfolding run.simps(10) by (simp add: run_suffix_part [OF u])
qed

lemma after_name_full:
  assumes w1: "set w1 \<subseteq> {CHR '' '', tab}"
    and e: "e \<noteq> []" "CHR ''>'' \<notin> set e" "CHR ''('' \<notin> set e"
    and w2: "set w2 \<subseteq> {CHR '' '', tab}"
    and u: "u \<noteq> []" "CHR '')'' \<notin> set u"
  shows "\<exists>q more. run after_name
            \<lparr>pos = p, rest = w1 @ CHR ''<'' # e @ CHR ''>'' # w2 @ CHR ''('' # u @ CHR '')'' # r,
             caps = c\<rparr>
          = \<lparr>pos = q, rest = r, caps = c(2 := Some e, 3 := Some u)\<rparr> # more"
proof -
  let ?r2 = "w2 @ CHR ''('' # u @ CHR '')'' # r"
  let ?r1 = "CHR ''<'' # e @ CHR ''>'' # ?r2"
  let ?F = "run (Seq (Opt email_part) (Seq blanks suffix_part))"
  let ?S1 = "\<lparr>pos = p + length w1, rest = ?r1, caps = c\<rparr>"
  let ?S2 = "\<lparr>pos = p + length w1 + length e + 2, rest = ?r2, caps = c(2 := Some e)\<rparr>"
  have 1: "run after_name \<lparr>pos = p, rest = w1 @ ?r1, caps = c\<rparr>
             = concat (map ?F (run blanks \<lparr>pos = p, rest = w1 @ ?r1, caps = c\<rparr>))"
    unfolding after_name_def
    by (rule run.simps(10))
  obtain m1 where b: "run blanks \<lparr>pos = p, rest = w1 @ ?r1, caps = c\<rparr> = ?S1 # m1"
    using run_blanks_first [OF w1, of ?r1 p c] by auto
  have "?F ?S1 = concat (map (run (Seq blanks suffix_part)) (run email_part ?S1 @ [?S1]))"
    unfolding run.simps(10) [of "Opt email_part" "Seq blanks suffix_part"] run.simps(7) ..
  also have "run email_part ?S1 = [?S2]"
    using run_email_part [OF e, of "p + length w1" ?r2 c] by simp
  finally have 2: "?F ?S1 = run (Seq blanks suffix_part) ?S2 @ run (Seq blanks suffix_part) ?S1"
    by simp
  obtain q m2 where 3: "run (Seq blanks suffix_part) ?S2
      = \<lparr>pos = q, rest = r, caps = c(2 := Some e, 3 := Some u)\<rparr> # m2"
    using blanks_then_suffix_full [OF w2 u, of "p + length w1 + length e + 2" r "c(2 := Some e)"]
    by blast
  show ?thesis unfolding 1 b using 2 3 by simp
qed

lemma concat_map_upt_first:
  assumes "\<And>k. m \<le> k \<Longrightarrow> k < j \<Longrightarrow> f k = []" and "m \<le> j" and "j < n"
  shows "concat (map f [m ..< n]) = f j @ concat (map f [Suc j ..< n])"
proof -
  have "[m ..< j + (n - j)] = [m ..< j] @ [j ..< j + (n - j)]"
    using assms(2) by (rule upt_add_eq_append)
  moreover have "j + (n - j) = n" using assms(3) by simp
  moreover have "[j ..< n] = j # [Suc j ..< n]" using assms(3) by (rule upt_conv_Cons)
  ultimately have "[m ..< n] = [m ..< j] @ j # [Suc j ..< n]" by simp
  moreover have "concat (map f [m ..< j]) = []"
    by (rule concat_map_Nil) (use assms(1) in auto)
  ultimately show ?thesis by simp
qed

lemma run_name_part:
  "run name_part \<lparr>pos = 0, rest = str, caps = c\<rparr>
     = map (\<lambda>k. \<lparr>pos = k, rest = drop k str, caps = c(1 := Some (take k str))\<rparr>)
         [1 ..< Suc (length (takeWhile (\<lambda>x. x \<notin> set ''<('') str))]"
  unfolding name_part_def run.simps span_def in_cset_fun
  by (simp add: advance_record capture_record comp_def)

lemma run_author_pattern:
  "run AUTHOR_PATTERN \<lparr>pos = 0, rest = str, caps = c\<rparr>
     = concat (map (\<lambda>k. run after_name
                       \<lparr>pos = k, rest = drop k str, caps = c(1 := Some (take k str))\<rparr>)
         [1 ..< Suc (length (takeWhile (\<lambda>x. x \<notin> set ''<('') str))])
       @ run after_name \<lparr>pos = 0, rest = str, caps = c\<rparr>"
proof -
  have "run AUTHOR_PATTERN \<lparr>pos = 0, rest = str, caps = c\<rparr>
     = concat (map (run after_name) (run name_part \<lparr>pos = 0, rest = str, caps = c\<rparr>))
       @ run after_name \<lparr>pos = 0, rest = str, caps = c\<rparr>"
    unfolding AUTHOR_PATTERN_def run.simps(10) run.simps(7) run.simps(1) by simp
  then show ?thesis unfolding run_name_part by (simp add: comp_def)
qed

lemma after_name_inside:
  assumes a: "a \<noteq> []" and f: "CHR ''<'' \<notin> set a" "CHR ''('' \<notin> set a"
    and l: "last a \<notin> {CHR '' '', tab}" and e: "last a = nl \<longrightarrow> b \<noteq> []"
  shows "run after_name \<lparr>pos = p, rest = a @ b, caps = c\<rparr> = []"
proof -
  let ?B = "\<lambda>x. x = CHR '' '' \<or> x = tab"
  have "dropWhile ?B a \<noteq> []"
    using l last_in_set [OF a] by (auto simp: dropWhile_eq_Nil_conv)
  then obtain x a' where d: "dropWhile ?B a = x # a'" by (cases "dropWhile ?B a") auto
  have x: "\<not> ?B x" using hd_dropWhile [of ?B a] d by auto
  from d have "x \<in> set (dropWhile ?B a)" by simp
  then have "x \<in> set a" by (rule set_dropWhileD)
  then have xf: "x \<noteq> CHR ''<''" "x \<noteq> CHR ''(''" using f by auto
  have w: "set (takeWhile ?B a) \<subseteq> {CHR '' '', tab}"
    using set_takeWhileD [of _ ?B a] by auto
  have la: "last a = last (x # a')"
  proof -
    have "last (takeWhile ?B a @ dropWhile ?B a) = last (dropWhile ?B a)"
      by (rule last_appendR) (simp add: d)
    then have "last a = last (dropWhile ?B a)" by (simp only: takeWhile_dropWhile_id)
    then show ?thesis by (simp only: d)
  qed
  have n: "x = nl \<longrightarrow> a' @ b \<noteq> []"
  proof (cases "a' = []")
    case True
    then show ?thesis using la e by simp
  next
    case False
    then show ?thesis by simp
  qed
  have "(takeWhile ?B a @ dropWhile ?B a) @ b = a @ b"
    by (simp only: takeWhile_dropWhile_id)
  then have r: "a @ b = takeWhile ?B a @ x # a' @ b" by (simp add: d)
  have "x \<notin> {CHR '' '', tab, CHR ''<'', CHR ''(''}" using x xf by simp
  from after_name_none [OF w this n]
  show ?thesis unfolding r .
qed

lemma author_match_plain:
  assumes a: "nm \<noteq> []" and f: "CHR ''<'' \<notin> set nm" "CHR ''('' \<notin> set nm"
    and l: "last nm \<notin> {CHR '' '', tab, nl}"
  shows "re_match AUTHOR_PATTERN nm = Some ((\<lambda>_. None)(1 := Some nm))"
proof -
  let ?c = "\<lambda>_::nat. None::string option"
  let ?f = "\<lambda>k. run after_name \<lparr>pos = k, rest = drop k nm, caps = ?c(1 := Some (take k nm))\<rparr>"
  have "takeWhile (\<lambda>x. x \<notin> set ''<('') nm = nm"
    by (rule takeWhile_eq_all_conv [THEN iffD2]) (use f in auto)
  then have n: "length (takeWhile (\<lambda>x. x \<notin> set ''<('') nm) = length nm"
    by (rule arg_cong)
  have early: "?f k = []" if "k < length nm" for k
  proof -
    have "run after_name \<lparr>pos = k, rest = drop k nm @ [], caps = ?c(1 := Some (take k nm))\<rparr> = []"
    proof (rule after_name_inside)
      show "drop k nm \<noteq> []" using that by simp
      show "CHR ''<'' \<notin> set (drop k nm)" "CHR ''('' \<notin> set (drop k nm)"
        using f by (auto dest: in_set_dropD)
      show "last (drop k nm) \<notin> {CHR '' '', tab}" "last (drop k nm) = nl \<longrightarrow> [] \<noteq> []"
        using l that by (simp_all add: last_drop)
    qed
    then show ?thesis by simp
  qed
  have "concat (map ?f [1 ..< Suc (length nm)]) = ?f (length nm)"
  proof (rule concat_map_upt_last)
    fix k assume "k < length nm"
    then show "?f k = []" by (rule early)
  next
    show "1 \<le> length nm" using a by (cases nm) simp_all
  qed
  then show ?thesis
    unfolding re_match_def run_author_pattern n by (simp add: after_name_end)
qed

lemma author_match_full:
  assumes a: "nm \<noteq> []" and f: "CHR ''<'' \<notin> set nm" "CHR ''('' \<notin> set nm"
    and l: "last nm \<notin> {CHR '' '', tab}"
    and w1: "set w1 \<subseteq> {CHR '' '', tab}"
    and e: "e \<noteq> []" "CHR ''>'' \<notin> set e" "CHR ''('' \<notin> set e"
    and w2: "set w2 \<subseteq> {CHR '' '', tab}"
    and u: "u \<noteq> []" "CHR '')'' \<notin> set u"
  shows "re_match AUTHOR_PATTERN
           (nm @ w1 @ CHR ''<'' # e @ CHR ''>'' # w2 @ CHR ''('' # u @ CHR '')'' # r)
         = Some ((\<lambda>_. None)(1 := Some nm, 2 := Some e, 3 := Some u))"
proof -
  let ?c = "\<lambda>_::nat. None::string option"
  let ?b = "w1 @ CHR ''<'' # e @ CHR ''>'' # w2 @ CHR ''('' # u @ CHR '')'' # r"
  let ?str = "nm @ ?b"
  let ?f = "\<lambda>k. run after_name
              \<lparr>pos = k, rest = drop k ?str, caps = ?c(1 := Some (take k ?str))\<rparr>"
  let ?n = "length (takeWhile (\<lambda>x. x \<notin> set ''<('') ?str)"
  have "takeWhile (\<lambda>x. x \<notin> set ''<('') ?str = nm @ takeWhile (\<lambda>x. x \<notin> set ''<('') ?b"
    by (rule takeWhile_append2) (use f in auto)
  then have n: "length nm < Suc ?n" by simp
  have early: "?f k = []" if "k < length nm" for k
  proof -
    have "run after_name
            \<lparr>pos = k, rest = drop k nm @ ?b, caps = ?c(1 := Some (take k ?str))\<rparr> = []"
    proof (rule after_name_inside)
      show "drop k nm \<noteq> []" using that by simp
      show "CHR ''<'' \<notin> set (drop k nm)" "CHR ''('' \<notin> set (drop k nm)"
        using f by (auto dest: in_set_dropD)
      show "last (drop k nm) \<notin> {CHR '' '', tab}" using l that by (simp add: last_drop)
      show "last (drop k nm) = nl \<longrightarrow> ?b \<noteq> []" by simp
    qed
    moreover have "drop k ?str = drop k nm @ ?b" using that by simp
    ultimately show ?thesis by simp
  qed
  obtain q more where full: "run after_name \<lparr>pos = length nm, rest = ?b, caps = ?c(1 := Some nm)\<rparr>
      = \<lparr>pos = q, rest = r, caps = ?c(1 := Some nm, 2 := Some e, 3 := Some u)\<rparr> # more"
    using after_name_full [OF w1 e w2 u, of "length nm" r "?c(1 := Some nm)"] by blast
  have "drop (length nm) ?str = ?b" "take (length nm) ?str = nm" by simp_all
  then have at: "?f (length nm)
      = \<lparr>pos = q, rest = r, caps = ?c(1 := Some nm, 2 := Some e, 3 := Some u)\<rparr> # more"
    using full by simp
  have "concat (map ?f [1 ..< Suc ?n])
          = ?f (length nm) @ concat (map ?f [Suc (length nm) ..< Suc ?n])"
  proof (rule concat_map_upt_first)
    fix k assume "k < length nm"
    then show "?f k = []" by (rule early)
  next
    show "1 \<le> length nm" using a by (cases nm) simp_all
    show "length nm < Suc ?n" by (rule n)
  qed
  then have "\<exists>more'. run AUTHOR_PATTERN \<lparr>pos = 0, rest = ?str, caps = ?c\<rparr>
      = \<lparr>pos = q, rest = r, caps = ?c(1 := Some nm, 2 := Some e, 3 := Some u)\<rparr> # more'"
    unfolding run_author_pattern at by simp
  then show ?thesis unfolding re_match_def by auto
qed

lemma parse_person_string:
  assumes "\<not> has_key ''url'' person" and "\<not> has_key ''email'' person"
    and "map_of person ''name'' = Some (PStr s)" and "re_match AUTHOR_PATTERN s = Some g"
  shows "parse_person (PDict person)
           = Inr (PDict ((''name'', opt_str (g 1))
                   # (case g 2 of None \<Rightarrow> [] | Some email \<Rightarrow> [(''email'', PStr email)])))"
  using assms by (simp add: getitem_def split: option.splits)

text \<open>
  Claim C2. As stated the claim fails: \<^verbatim>\<open>"Jane Doe "\<close> has no angle bracket and no parenthesis, and the parser returns the name \<^verbatim>\<open>"Jane Doe"\<close>, not the whole string: the lazy first group stops as soon as only blanks follow.
\<close>

theorem author_string_forms_counterexample:
  "parse_person (PDict [(''name'', PStr ''Jane Doe '')]) = Inr (PDict [(''name'', PStr ''Jane Doe'')])
   \<and> CHR ''<'' \<notin> set ''Jane Doe '' \<and> CHR ''('' \<notin> set ''Jane Doe ''
   \<and> ''Jane Doe'' \<noteq> ''Jane Doe ''"
  by code_simp

text \<open>
  Claim C2, amended. An author string made of a display name (not empty, without \<^verbatim>\<open><\<close> and \<^verbatim>\<open>(\<close>, not ending in a space or tab), blanks, an email in angle brackets (not empty, without \<^verbatim>\<open>>\<close> and \<^verbatim>\<open>(\<close>), blanks and a parenthesis (not empty, without \<^verbatim>\<open>)\<close>) is parsed to the display name and the email, the parenthesis dropped. A string that is not empty, has no \<^verbatim>\<open><\<close> and no \<^verbatim>\<open>(\<close> and does not end in a space, tab or line feed is parsed to a record with the whole string as the name and no email.
\<close>

theorem author_string_forms:
  "(\<not> has_key ''url'' person \<and> \<not> has_key ''email'' person
     \<and> map_of person ''name''
         = Some (PStr (nm @ w1 @ ''<'' @ email @ ''>'' @ w2 @ ''('' @ url @ '')''))
     \<and> nm \<noteq> [] \<and> CHR ''<'' \<notin> set nm \<and> CHR ''('' \<notin> set nm \<and> last nm \<notin> {CHR '' '', tab}
     \<and> set w1 \<subseteq> {CHR '' '', tab}
     \<and> email \<noteq> [] \<and> CHR ''>'' \<notin> set email \<and> CHR ''('' \<notin> set email
     \<and> set w2 \<subseteq> {CHR '' '', tab}
     \<and> url \<noteq> [] \<and> CHR '')'' \<notin> set url \<longrightarrow>
     parse_person (PDict person) = Inr (PDict [(''name'', PStr nm), (''email'', PStr email)]))
   \<and> (\<not> has_key ''url'' person \<and> \<not> has_key ''email'' person
     \<and> map_of person ''name'' = Some (PStr nm)
     \<and> nm \<noteq> [] \<and> CHR ''<'' \<notin> set nm \<and> CHR ''('' \<notin> set nm
     \<and> last nm \<notin> {CHR '' '', tab, nl} \<longrightarrow>
     parse_person (PDict person) = Inr (PDict [(''name'', PStr nm)]))"
proof (intro conjI impI)
  assume h: "\<not> has_key ''url'' person \<and> \<not> has_key ''email'' person
     \<and> map_of person ''name''
         = Some (PStr (nm @ w1 @ ''<'' @ email @ ''>'' @ w2 @ ''('' @ url @ '')''))
     \<and> nm \<noteq> [] \<and> CHR ''<'' \<notin> set nm \<and> CHR ''('' \<notin> set nm \<and> last nm \<notin> {CHR '' '', tab}
     \<and> set w1 \<subseteq> {CHR '' '', tab}
     \<and> email \<noteq> [] \<and> CHR ''>'' \<notin> set email \<and> CHR ''('' \<notin> set email
     \<and> set w2 \<subseteq> {CHR '' '', tab}
     \<and> url \<noteq> [] \<and> CHR '')'' \<notin> set url"
  have "re_match AUTHOR_PATTERN
           (nm @ w1 @ CHR ''<'' # email @ CHR ''>'' # w2 @ CHR ''('' # url @ CHR '')'' # [])
         = Some ((\<lambda>_. None)(1 := Some nm, 2 := Some email, 3 := Some url))"
    by (rule author_match_full) (use h in blast)+
  then have m: "re_match AUTHOR_PATTERN (nm @ w1 @ ''<'' @ email @ ''>'' @ w2 @ ''('' @ url @ '')'')
         = Some ((\<lambda>_. None)(1 := Some nm, 2 := Some email, 3 := Some url))"
    by simp
  have "\<not> has_key ''url'' person" "\<not> has_key ''email'' person"
    "map_of person ''name''
       = Some (PStr (nm @ w1 @ ''<'' @ email @ ''>'' @ w2 @ ''('' @ url @ '')''))"
    using h by blast+
  from parse_person_string [OF this m]
  show "parse_person (PDict person) = Inr (PDict [(''name'', PStr nm), (''email'', PStr email)])"
    by (simp add: opt_str_def)
next
  assume h: "\<not> has_key ''url'' person \<and> \<not> has_key ''email'' person
     \<and> map_of person ''name'' = Some (PStr nm)
     \<and> nm \<noteq> [] \<and> CHR ''<'' \<notin> set nm \<and> CHR ''('' \<notin> set nm
     \<and> last nm \<notin> {CHR '' '', tab, nl}"
  have m: "re_match AUTHOR_PATTERN nm = Some ((\<lambda>_. None)(1 := Some nm))"
    by (rule author_match_plain) (use h in blast)+
  have "\<not> has_key ''url'' person" "\<not> has_key ''email'' person"
    "map_of person ''name'' = Some (PStr nm)"
    using h by blast+
  from parse_person_string [OF this m]
  show "parse_person (PDict person) = Inr (PDict [(''name'', PStr nm)])"
    by (simp add: opt_str_def)
qed

theorem author_string_forms_witness:
  "parse_person (PDict [(''name'', PStr ''Jane Doe <jane@example.com> (https://jane.dev)'')])
     = Inr (PDict [(''name'', PStr ''Jane Doe''), (''email'', PStr ''jane@example.com'')])
   \<and> parse_person (PDict [(''name'', PStr ''Jane Doe'')]) = Inr (PDict [(''name'', PStr ''Jane Doe'')])"
proof -
  let ?p = "[(''name'', PStr ''Jane Doe <jane@example.com> (https://jane.dev)'')]"
  have h1: "\<not> has_key ''url'' ?p \<and> \<not> has_key ''email'' ?p
     \<and> map_of ?p ''name''
         = Some (PStr (''Jane Doe'' @ '' '' @ ''<'' @ ''jane@example.com'' @ ''>'' @ '' ''
                        @ ''('' @ ''https://jane.dev'' @ '')''))
     \<and> ''Jane Doe'' \<noteq> [] \<and> CHR ''<'' \<notin> set ''Jane Doe'' \<and> CHR ''('' \<notin> set ''Jane Doe''
     \<and> last ''Jane Doe'' \<notin> {CHR '' '', tab}
     \<and> set '' '' \<subseteq> {CHR '' '', tab}
     \<and> ''jane@example.com'' \<noteq> [] \<and> CHR ''>'' \<notin> set ''jane@example.com''
     \<and> CHR ''('' \<notin> set ''jane@example.com''
     \<and> set '' '' \<subseteq> {CHR '' '', tab}
     \<and> ''https://jane.dev'' \<noteq> [] \<and> CHR '')'' \<notin> set ''https://jane.dev''"
    by (simp add: has_key_def)
  let ?q = "[(''name'', PStr ''Jane Doe'')]"
  have h2: "\<not> has_key ''url'' ?q \<and> \<not> has_key ''email'' ?q
     \<and> map_of ?q ''name'' = Some (PStr ''Jane Doe'')
     \<and> ''Jane Doe'' \<noteq> [] \<and> CHR ''<'' \<notin> set ''Jane Doe'' \<and> CHR ''('' \<notin> set ''Jane Doe''
     \<and> last ''Jane Doe'' \<notin> {CHR '' '', tab, nl}"
    by (simp add: has_key_def)
  have 1: "parse_person (PDict ?p)
     = Inr (PDict [(''name'', PStr ''Jane Doe''), (''email'', PStr ''jane@example.com'')])"
    by (rule author_string_forms [of ?p "''Jane Doe''" "'' ''" "''jane@example.com''" "'' ''"
          "''https://jane.dev''", THEN conjunct1, rule_format, OF h1])
  have 2: "parse_person (PDict ?q) = Inr (PDict [(''name'', PStr ''Jane Doe'')])"
    by (rule author_string_forms [of ?q "''Jane Doe''" "'' ''" "''jane@example.com''" "'' ''"
          "''https://jane.dev''", THEN conjunct2, rule_format, OF h2])
  show ?thesis using 1 2 by (rule conjI)
qed

end
